theory Spec2Isabelle
  imports Main "HOL-Library.Word"
begin

section \<open>The LRU-K replacer (lru\_k\_replacer.h, lru\_k\_replacer.cpp)\<close>

text \<open>
  The class \<^verbatim>\<open>LRUKReplacer\<close> keeps a vector of \<^verbatim>\<open>FrameInfo\<close> records, a logical clock
  and the count of evictable frames. All of them are \<^verbatim>\<open>size_t\<close>, modelled as 64-bit
  words; \<^verbatim>\<open>frame_id_t\<close> is declared in a header that is not part of the sources and is
  only compared for equality, so it is modelled as \<open>int\<close>. The members carry the
  source's names without the trailing underscore; \<^verbatim>\<open>k_\<close> is \<open>lru_k\<close>.
\<close>

type_synonym frame_id_t = int
type_synonym size_t = "64 word"

record FrameInfo =
  frame_id :: frame_id_t
  accesses :: "size_t list"
  evictable :: bool

record LRUKReplacer =
  current_timestamp :: size_t
  curr_size :: size_t
  replacer_size :: size_t
  lru_k :: size_t
  frames :: "FrameInfo list"

text \<open>
  Modelled from the spec: \<^verbatim>\<open>BUSTUB_ASSERT\<close> is a macro of \<^verbatim>\<open>common/macros.h\<close>, which is
  not part of the sources. A failed assertion fails the calling operation with
  invalid-argument, so the model is of a build that evaluates its assertions. The
  failure carries the state as the operation left it at the assertion, so that what was
  mutated before the check can be read off.
\<close>

datatype error = InvalidArgument

type_synonym 'a result = "(error \<times> LRUKReplacer) + 'a"

text \<open>The constructor; \<open>now\<close> is the value of \<^verbatim>\<open>std::time(nullptr)\<close>.\<close>

definition LRUKReplacer :: "size_t \<Rightarrow> size_t \<Rightarrow> size_t \<Rightarrow> LRUKReplacer" where
  "LRUKReplacer num_frames k now =
     \<lparr>current_timestamp = now, curr_size = 0, replacer_size = num_frames,
      lru_k = k, frames = []\<rparr>"

text \<open>\<^verbatim>\<open>FindInternal\<close>: the index of the first record with the given id.\<close>

primrec find_index_of :: "frame_id_t \<Rightarrow> FrameInfo list \<Rightarrow> nat option" where
  "find_index_of fid [] = None"
| "find_index_of fid (f # fs) =
     (if frame_id f = fid then Some 0 else map_option Suc (find_index_of fid fs))"

definition FindInternal :: "frame_id_t \<Rightarrow> LRUKReplacer \<Rightarrow> nat option" where
  "FindInternal fid s = find_index_of fid (frames s)"

text \<open>\<^verbatim>\<open>frames_.erase(frames_.begin() + index)\<close>\<close>

definition erase :: "nat \<Rightarrow> 'a list \<Rightarrow> 'a list" where
  "erase i xs = take i xs @ drop (Suc i) xs"

definition RemoveInternal :: "frame_id_t \<Rightarrow> LRUKReplacer \<Rightarrow> LRUKReplacer result" where
  "RemoveInternal fid s =
     (case FindInternal fid s of
        None \<Rightarrow> Inr s
      | Some index \<Rightarrow>
          if \<not> evictable (frames s ! index) then Inl (InvalidArgument, s)
          else Inr (s\<lparr>frames := erase index (frames s), curr_size := curr_size s - 1\<rparr>))"

definition SetEvictableInternal ::
  "frame_id_t \<Rightarrow> bool \<Rightarrow> LRUKReplacer \<Rightarrow> LRUKReplacer result" where
  "SetEvictableInternal fid set_evictable s =
     (case FindInternal fid s of
        None \<Rightarrow> Inl (InvalidArgument, s)
      | Some index \<Rightarrow>
          let s1 = (if \<not> evictable (frames s ! index) \<and> set_evictable
                    then s\<lparr>curr_size := curr_size s + 1\<rparr>
                    else if evictable (frames s ! index) \<and> \<not> set_evictable
                    then s\<lparr>curr_size := curr_size s - 1\<rparr>
                    else s)
          in Inr (s1\<lparr>frames := (frames s1)
                        [index := (frames s1 ! index)\<lparr>evictable := set_evictable\<rparr>]\<rparr>))"

definition push_access :: "nat \<Rightarrow> LRUKReplacer \<Rightarrow> LRUKReplacer" where
  "push_access index s =
     s\<lparr>frames := (frames s)
        [index := (frames s ! index)
           \<lparr>accesses := accesses (frames s ! index) @ [current_timestamp s]\<rparr>]\<rparr>"

definition RecordAccessInternal :: "frame_id_t \<Rightarrow> LRUKReplacer \<Rightarrow> LRUKReplacer result" where
  "RecordAccessInternal fid s =
     (let s1 = s\<lparr>current_timestamp := current_timestamp s + 1\<rparr> in
      case FindInternal fid s1 of
        Some index \<Rightarrow> Inr (push_access index s1)
      | None \<Rightarrow>
          if \<not> length (frames s1) < unat (replacer_size s1) then Inl (InvalidArgument, s1)
          else
            let s2 = s1\<lparr>frames := frames s1 @
                          [\<lparr>frame_id = fid, accesses = [], evictable = False\<rparr>]\<rparr>
            in Inr (push_access (length (frames s2) - 1) s2))"

text \<open>
  The loop of \<^verbatim>\<open>EvictInternal\<close>, run over the frames in the order of the reverse
  iterator. The accumulator is \<open>(distance, found, *frame_id)\<close>.
\<close>

fun evict_scan ::
  "size_t \<Rightarrow> size_t \<Rightarrow> FrameInfo list \<Rightarrow> size_t \<times> bool \<times> frame_id_t
   \<Rightarrow> size_t \<times> bool \<times> frame_id_t" where
  "evict_scan now k [] acc = acc"
| "evict_scan now k (it # rest) (distance, found, fid) =
     (if \<not> evictable it then evict_scan now k rest (distance, found, fid)
      else if length (accesses it) < unat k
      then evict_scan now k rest (- 1, True, frame_id it)
      else if now - accesses it ! (length (accesses it) - unat k) > distance
      then evict_scan now k rest (now - accesses it ! unat (k - 1), True, frame_id it)
      else evict_scan now k rest (distance, True, fid))"

text \<open>
  \<^verbatim>\<open>EvictInternal\<close>; \<open>fid0\<close> is what \<^verbatim>\<open>*frame_id\<close> holds when the caller passes it in.
  The result is the returned flag, the final \<^verbatim>\<open>*frame_id\<close> and the state.
\<close>

definition EvictInternal ::
  "frame_id_t \<Rightarrow> LRUKReplacer \<Rightarrow> (bool \<times> frame_id_t \<times> LRUKReplacer) result" where
  "EvictInternal fid0 s =
     (let s1 = s\<lparr>current_timestamp := current_timestamp s + 1\<rparr>;
          (distance, found, fid) =
             evict_scan (current_timestamp s1) (lru_k s1) (rev (frames s1)) (0, False, fid0)
      in if found
         then (case RemoveInternal fid s1 of
                 Inl e \<Rightarrow> Inl e
               | Inr s2 \<Rightarrow> Inr (True, fid, s2))
         else Inr (False, fid, s1))"

definition Size :: "LRUKReplacer \<Rightarrow> size_t" where
  "Size s = curr_size s"

text \<open>The public operations, each one call under the latch.\<close>

datatype replacer_op =
    R_RecordAccess frame_id_t
  | R_SetEvictable frame_id_t bool
  | R_Remove frame_id_t
  | R_Evict frame_id_t

fun replacer_step :: "replacer_op \<Rightarrow> LRUKReplacer \<Rightarrow> LRUKReplacer result" where
  "replacer_step (R_RecordAccess fid) s = RecordAccessInternal fid s"
| "replacer_step (R_SetEvictable fid e) s = SetEvictableInternal fid e s"
| "replacer_step (R_Remove fid) s = RemoveInternal fid s"
| "replacer_step (R_Evict fid0) s =
     (case EvictInternal fid0 s of Inl e \<Rightarrow> Inl e | Inr (found, fid, s') \<Rightarrow> Inr s')"

text \<open>A sequence of calls stops at the first failed assertion.\<close>

fun replacer_run :: "replacer_op list \<Rightarrow> LRUKReplacer \<Rightarrow> LRUKReplacer result" where
  "replacer_run [] s = Inr s"
| "replacer_run (op # ops) s =
     (case replacer_step op s of Inl e \<Rightarrow> Inl e | Inr s' \<Rightarrow> replacer_run ops s')"

text \<open>The backward k-distance as the class comment defines it: \<open>None\<close> is +infinity.\<close>

definition k_distance :: "size_t \<Rightarrow> size_t \<Rightarrow> FrameInfo \<Rightarrow> size_t option" where
  "k_distance now k f =
     (if length (accesses f) < unat k then None
      else Some (now - accesses f ! (length (accesses f) - unat k)))"

text \<open>
  What the size of the replacer is meant to count, and the capacity bound that
  \<^verbatim>\<open>RecordAccessInternal\<close> asserts.
\<close>

definition replacer_inv :: "LRUKReplacer \<Rightarrow> bool" where
  "replacer_inv s \<longleftrightarrow>
     curr_size s = of_nat (length (filter evictable (frames s))) \<and>
     length (frames s) \<le> unat (replacer_size s)"

text \<open>The evictable frames with fewer than \<open>k\<close> recorded accesses, in vector order.\<close>

definition inf_frames :: "size_t \<Rightarrow> FrameInfo list \<Rightarrow> FrameInfo list" where
  "inf_frames k fs = filter (\<lambda>f. evictable f \<and> length (accesses f) < unat k) fs"

text \<open>
  Concrete replacer states for the instances below: after an eviction with \<open>k = 2\<close>; at
  capacity; with \<open>k = 1\<close> after the accesses 1, 2, 1, 2; with \<open>k = 3\<close> after the accesses
  1, 2, 1.
\<close>

definition after_eviction :: LRUKReplacer where
  "after_eviction =
     \<lparr>current_timestamp = 4, curr_size = 2, replacer_size = 3, lru_k = 2,
      frames = [\<lparr>frame_id = 2, accesses = [2], evictable = True\<rparr>,
                \<lparr>frame_id = 3, accesses = [3], evictable = True\<rparr>]\<rparr>"

definition at_capacity :: LRUKReplacer where
  "at_capacity =
     \<lparr>current_timestamp = 2, curr_size = 0, replacer_size = 2, lru_k = 2,
      frames = [\<lparr>frame_id = 1, accesses = [1], evictable = False\<rparr>,
                \<lparr>frame_id = 2, accesses = [2], evictable = False\<rparr>]\<rparr>"

definition lru_example :: LRUKReplacer where
  "lru_example =
     \<lparr>current_timestamp = 4, curr_size = 2, replacer_size = 2, lru_k = 1,
      frames = [\<lparr>frame_id = 1, accesses = [1, 3], evictable = True\<rparr>,
                \<lparr>frame_id = 2, accesses = [2, 4], evictable = True\<rparr>]\<rparr>"

definition tie_example :: LRUKReplacer where
  "tie_example =
     \<lparr>current_timestamp = 3, curr_size = 2, replacer_size = 2, lru_k = 3,
      frames = [\<lparr>frame_id = 1, accesses = [1, 3], evictable = True\<rparr>,
                \<lparr>frame_id = 2, accesses = [2], evictable = True\<rparr>]\<rparr>"

section \<open>The extendible hash table (extendible\_hash\_table.cpp)\<close>

text \<open>
  The directory \<^verbatim>\<open>dir_\<close> is a vector of shared pointers to buckets, and one bucket is
  referenced from several slots. The model keeps the bucket objects in a store, \<open>heap\<close>,
  and the directory holds addresses into it: a new bucket is allocated at the end of
  the store. The members carry the source's names without the trailing underscore; the
  members of a bucket are \<open>b_size\<close>, \<open>b_depth\<close> and \<open>b_list\<close>.

  \<^verbatim>\<open>std::hash<K>\<close> is the parameter \<open>h\<close>, its \<^verbatim>\<open>size_t\<close> result read as a natural number.
  The depths and \<^verbatim>\<open>num_buckets_\<close> are counters that only grow from 0 and 1 and are
  natural numbers; the one computation on them that leaves the range of \<^verbatim>\<open>int\<close>, the
  mask of \<^verbatim>\<open>IndexOf\<close>, is computed on 32-bit words. The vectors are lists of any
  length: an allocation that fails is not part of the model.
\<close>

unbundle bit_operations_syntax

record ('k, 'v) Bucket =
  b_size :: nat
  b_depth :: nat
  b_list :: "('k \<times> 'v) list"

record ('k, 'v) ExtendibleHashTable =
  global_depth :: nat
  bucket_size :: nat
  num_buckets :: nat
  dir :: "nat list"
  heap :: "('k, 'v) Bucket list"

text \<open>
  Modelled from the spec: \<^verbatim>\<open>Bucket::IsFull\<close>, \<^verbatim>\<open>Bucket::GetDepth\<close> and
  \<^verbatim>\<open>Bucket::IncrementDepth\<close> are defined in the header \<^verbatim>\<open>extendible_hash_table.h\<close>, which
  is not part of the sources. A bucket holds up to \<open>bucket_size\<close> pairs and is full when
  it has no free capacity; its local depth is read and incremented by one.
\<close>

definition IsFull :: "('k, 'v) Bucket \<Rightarrow> bool" where
  "IsFull b \<longleftrightarrow> b_size b \<le> length (b_list b)"

definition GetDepth :: "('k, 'v) Bucket \<Rightarrow> nat" where
  "GetDepth b = b_depth b"

definition IncrementDepth :: "('k, 'v) Bucket \<Rightarrow> ('k, 'v) Bucket" where
  "IncrementDepth b = b\<lparr>b_depth := b_depth b + 1\<rparr>"

text \<open>\<^verbatim>\<open>Bucket::Find\<close>: the value of the first pair with the key.\<close>

definition Bucket_Find :: "'k \<Rightarrow> ('k, 'v) Bucket \<Rightarrow> 'v option" where
  "Bucket_Find key b = map_of (b_list b) key"

text \<open>\<^verbatim>\<open>Bucket::Remove\<close>: erases the first pair with the key; \<open>None\<close> when there is none.\<close>

fun erase_first :: "'k \<Rightarrow> ('k \<times> 'v) list \<Rightarrow> ('k \<times> 'v) list option" where
  "erase_first key [] = None"
| "erase_first key (it # rest) =
     (if fst it = key then Some rest else map_option ((#) it) (erase_first key rest))"

definition Bucket_Remove :: "'k \<Rightarrow> ('k, 'v) Bucket \<Rightarrow> bool \<times> ('k, 'v) Bucket" where
  "Bucket_Remove key b =
     (case erase_first key (b_list b) of
        Some l \<Rightarrow> (True, b\<lparr>b_list := l\<rparr>)
      | None \<Rightarrow> (False, b))"

text \<open>
  \<^verbatim>\<open>Bucket::Insert\<close>: the loop overwrites the value of the first pair with the key;
  otherwise the pair is appended unless the bucket is full. \<open>None\<close> is the result
  \<^verbatim>\<open>false\<close>, which leaves the bucket as it was.
\<close>

fun overwrite :: "'k \<Rightarrow> 'v \<Rightarrow> ('k \<times> 'v) list \<Rightarrow> ('k \<times> 'v) list option" where
  "overwrite key value [] = None"
| "overwrite key value (it # rest) =
     (if fst it = key then Some ((fst it, value) # rest)
      else map_option ((#) it) (overwrite key value rest))"

definition Bucket_Insert :: "'k \<Rightarrow> 'v \<Rightarrow> ('k, 'v) Bucket \<Rightarrow> ('k, 'v) Bucket option" where
  "Bucket_Insert key value b =
     (case overwrite key value (b_list b) of
        Some l \<Rightarrow> Some (b\<lparr>b_list := l\<rparr>)
      | None \<Rightarrow>
          if IsFull b then None
          else Some (b\<lparr>b_list := b_list b @ [(key, value)]\<rparr>))"

text \<open>
  Modelled from the spec: the default depth of the \<^verbatim>\<open>Bucket\<close> constructor is in the
  header that is not part of the sources; it is 0, the only local depth that is at most
  the global depth 0. The constructor of the table makes one bucket, referenced from
  the only slot.
\<close>

definition ExtendibleHashTable :: "nat \<Rightarrow> ('k, 'v) ExtendibleHashTable" where
  "ExtendibleHashTable bsize =
     \<lparr>global_depth = 0, bucket_size = bsize, num_buckets = 1, dir = [0],
      heap = [\<lparr>b_size = bsize, b_depth = 0, b_list = []\<rparr>]\<rparr>"

text \<open>
  \<^verbatim>\<open>int mask = (1 << global_depth_) - 1\<close> is computed in 32-bit \<^verbatim>\<open>int\<close>. Up to depth 30
  this is \<open>2 ^ global_depth - 1\<close>. At depth 31 the subtraction overflows and from depth 32
  the shift count exceeds the width, which C++ leaves undefined; the model takes what
  the usual 64-bit targets compute, the shift count modulo 32 and the subtraction
  wrapping around. The mask is then converted to \<^verbatim>\<open>size_t\<close> with its sign and combined
  with the hash.
\<close>

definition mask_of_depth :: "nat \<Rightarrow> 32 word" where
  "mask_of_depth d = push_bit (d mod 32) 1 - 1"

definition IndexOf :: "('k \<Rightarrow> nat) \<Rightarrow> 'k \<Rightarrow> ('k, 'v) ExtendibleHashTable \<Rightarrow> nat" where
  "IndexOf h key t = h key AND unat (scast (mask_of_depth (global_depth t)) :: 64 word)"

definition Find :: "('k \<Rightarrow> nat) \<Rightarrow> 'k \<Rightarrow> ('k, 'v) ExtendibleHashTable \<Rightarrow> 'v option" where
  "Find h key t =
     (let index = IndexOf h key t in
      if index \<ge> length (dir t) then None
      else Bucket_Find key (heap t ! (dir t ! index)))"

definition Remove ::
  "('k \<Rightarrow> nat) \<Rightarrow> 'k \<Rightarrow> ('k, 'v) ExtendibleHashTable \<Rightarrow> bool \<times> ('k, 'v) ExtendibleHashTable" where
  "Remove h key t =
     (let index = IndexOf h key t in
      if index \<ge> length (dir t) then (False, t)
      else
        let a = dir t ! index;
            (removed, b) = Bucket_Remove key (heap t ! a)
        in (removed, t\<lparr>heap := (heap t)[a := b]\<rparr>))"

text \<open>
  The three steps of \<^verbatim>\<open>Insert\<close> after \<^verbatim>\<open>bucket->Insert\<close> has returned false, for the
  bucket at address \<open>a\<close>. First the directory is doubled when the local depth equals the
  global depth: the loop pushes every slot of the old directory once more, in order
  (\<^verbatim>\<open>reserve\<close> has made room for them, so the range of the loop stays the old directory).
\<close>

definition grow_dir :: "('k, 'v) ExtendibleHashTable \<Rightarrow> ('k, 'v) ExtendibleHashTable" where
  "grow_dir t = t\<lparr>global_depth := global_depth t + 1, dir := dir t @ dir t\<rparr>"

definition expand_directory ::
  "nat \<Rightarrow> ('k, 'v) ExtendibleHashTable \<Rightarrow> ('k, 'v) ExtendibleHashTable" where
  "expand_directory a t =
     (if GetDepth (heap t ! a) = global_depth t then grow_dir t else t)"

text \<open>\<^verbatim>\<open>bucket->IncrementDepth()\<close>\<close>

definition increment_depth ::
  "nat \<Rightarrow> ('k, 'v) ExtendibleHashTable \<Rightarrow> ('k, 'v) ExtendibleHashTable" where
  "increment_depth a t = t\<lparr>heap := (heap t)[a := IncrementDepth (heap t ! a)]\<rparr>"

text \<open>
  Modelled from the spec: \<^verbatim>\<open>RedistributeBucket\<close> is declared in the header and its
  definition is not part of the sources. A new sibling bucket is created with the same
  (new) local depth; every entry of the old bucket is rehashed using the new local
  depth and goes to the old or to the new bucket by the differentiating bit, which is
  bit \<open>depth - 1\<close> of its hash; every directory slot that pointed at the old bucket and
  whose index has that bit set is repointed to the new bucket.
\<close>

definition RedistributeBucket ::
  "('k \<Rightarrow> nat) \<Rightarrow> nat \<Rightarrow> ('k, 'v) ExtendibleHashTable \<Rightarrow> ('k, 'v) ExtendibleHashTable" where
  "RedistributeBucket h a t =
     (let b = heap t ! a;
          d = GetDepth b - 1;
          sibling = length (heap t)
      in t\<lparr>num_buckets := num_buckets t + 1,
           heap := (heap t)[a := b\<lparr>b_list := filter (\<lambda>it. \<not> bit (h (fst it)) d) (b_list b)\<rparr>] @
                   [\<lparr>b_size = bucket_size t, b_depth = GetDepth b,
                     b_list = filter (\<lambda>it. bit (h (fst it)) d) (b_list b)\<rparr>],
           dir := map (\<lambda>i. if dir t ! i = a \<and> bit i d then sibling else dir t ! i)
                      [0..<length (dir t)]\<rparr>)"

definition split_at ::
  "('k \<Rightarrow> nat) \<Rightarrow> nat \<Rightarrow> ('k, 'v) ExtendibleHashTable \<Rightarrow> ('k, 'v) ExtendibleHashTable" where
  "split_at h a t = RedistributeBucket h a (increment_depth a t)"

definition split_bucket ::
  "('k \<Rightarrow> nat) \<Rightarrow> nat \<Rightarrow> ('k, 'v) ExtendibleHashTable \<Rightarrow> ('k, 'v) ExtendibleHashTable" where
  "split_bucket h a t = RedistributeBucket h a (increment_depth a (expand_directory a t))"

text \<open>
  \<^verbatim>\<open>Insert\<close> calls itself after the split, with no bound on the number of calls: it is
  a partial function, and \<open>None\<close> is the call that never returns. \<^verbatim>\<open>dir_.at\<close> throws
  \<^verbatim>\<open>std::out_of_range\<close> for an index outside the directory.
\<close>

datatype 'a outcome = Returns 'a | OutOfRange

partial_function (option) Insert ::
  "('k \<Rightarrow> nat) \<Rightarrow> 'k \<Rightarrow> 'v \<Rightarrow> ('k, 'v) ExtendibleHashTable
   \<Rightarrow> ('k, 'v) ExtendibleHashTable outcome option" where
  "Insert h key value t =
     (let index = IndexOf h key t in
      if index \<ge> length (dir t) then Some OutOfRange
      else
        let a = dir t ! index in
        case Bucket_Insert key value (heap t ! a) of
          Some b \<Rightarrow> Some (Returns (t\<lparr>heap := (heap t)[a := b]\<rparr>))
        | None \<Rightarrow> Insert h key value (split_bucket h a t))"

declare Insert.simps [code]

text \<open>Sequences of calls; a call that throws or never returns ends the sequence.\<close>

datatype ('k, 'v) table_op = H_Insert 'k 'v | H_Remove 'k | H_Find 'k

fun table_step ::
  "('k \<Rightarrow> nat) \<Rightarrow> ('k, 'v) table_op \<Rightarrow> ('k, 'v) ExtendibleHashTable
   \<Rightarrow> ('k, 'v) ExtendibleHashTable outcome option" where
  "table_step h (H_Insert key value) t = Insert h key value t"
| "table_step h (H_Remove key) t = Some (Returns (snd (Remove h key t)))"
| "table_step h (H_Find key) t = Some (Returns t)"

fun table_run ::
  "('k \<Rightarrow> nat) \<Rightarrow> ('k, 'v) table_op list \<Rightarrow> ('k, 'v) ExtendibleHashTable
   \<Rightarrow> ('k, 'v) ExtendibleHashTable outcome option" where
  "table_run h [] t = Some (Returns t)"
| "table_run h (op # ops) t =
     (case table_step h op t of
        Some (Returns t') \<Rightarrow> table_run h ops t'
      | r \<Rightarrow> r)"

text \<open>
  What the claims say \<open>find\<close> returns after a history of calls, here listed with the
  most recent call first: the value of the most recent insert of the key, unless a
  remove of the key came after it.
\<close>

fun last_write :: "'k \<Rightarrow> ('k, 'v) table_op list \<Rightarrow> 'v option" where
  "last_write key [] = None"
| "last_write key (H_Insert k v # older) = (if k = key then Some v else last_write key older)"
| "last_write key (H_Remove k # older) = (if k = key then None else last_write key older)"
| "last_write key (H_Find k # older) = last_write key older"

text \<open>The bucket a key is routed to.\<close>

definition target :: "('k \<Rightarrow> nat) \<Rightarrow> 'k \<Rightarrow> ('k, 'v) ExtendibleHashTable \<Rightarrow> ('k, 'v) Bucket" where
  "target h key t = heap t ! (dir t ! IndexOf h key t)"

text \<open>
  The invariant of the table, slot by slot: the slot refers to an allocated bucket of
  the configured size, whose local depth is at most the global depth and whose keys are
  distinct; the hashes of its keys, and the indices of the slots that share it, agree
  with the index of the slot on the low \<open>b_depth\<close> bits.
\<close>

definition slot_ok :: "('k \<Rightarrow> nat) \<Rightarrow> ('k, 'v) ExtendibleHashTable \<Rightarrow> nat \<Rightarrow> bool" where
  "slot_ok h t i \<longleftrightarrow>
     (let b = heap t ! (dir t ! i) in
      dir t ! i < length (heap t) \<and>
      b_depth b \<le> global_depth t \<and>
      b_size b = bucket_size t \<and>
      distinct (map fst (b_list b)) \<and>
      (\<forall>it \<in> set (b_list b). h (fst it) mod 2 ^ b_depth b = i mod 2 ^ b_depth b) \<and>
      (\<forall>j < length (dir t). dir t ! j = dir t ! i \<longrightarrow>
           j mod 2 ^ b_depth b = i mod 2 ^ b_depth b))"

definition table_inv :: "('k \<Rightarrow> nat) \<Rightarrow> ('k, 'v) ExtendibleHashTable \<Rightarrow> bool" where
  "table_inv h t \<longleftrightarrow>
     length (dir t) = 2 ^ global_depth t \<and> (\<forall>i < length (dir t). slot_ok h t i)"

text \<open>
  A state in which an insert of \<open>key\<close> cannot succeed: the hash of the key is 0 on the low
  31 bits, which routes the key to slot 0 at every depth, and the bucket of slot 0 is
  full of other keys with hash 0, which no split moves.
\<close>

definition pinned :: "('k \<Rightarrow> nat) \<Rightarrow> 'k \<Rightarrow> ('k, 'v) ExtendibleHashTable \<Rightarrow> bool" where
  "pinned h key t \<longleftrightarrow>
     h key mod 2 ^ 31 = 0 \<and> dir t \<noteq> [] \<and> dir t ! 0 < length (heap t) \<and>
     key \<notin> fst ` set (b_list (heap t ! (dir t ! 0))) \<and>
     IsFull (heap t ! (dir t ! 0)) \<and>
     (\<forall>it \<in> set (b_list (heap t ! (dir t ! 0))). h (fst it) = 0)"

text \<open>
  The hash of the instance \<^verbatim>\<open>ExtendibleHashTable<int, int>\<close>: \<^verbatim>\<open>std::hash<int>\<close> of
  libstdc++ converts the key to \<^verbatim>\<open>size_t\<close>. \<open>INT_MIN\<close> is the least \<^verbatim>\<open>int\<close>.
\<close>

definition hash_int :: "int \<Rightarrow> nat" where
  "hash_int k = nat (k mod 2 ^ 64)"

definition INT_MIN :: int where
  "INT_MIN = - (2 ^ 31)"

text \<open>
  Concrete tables for the instances below: a single full bucket; the table after six
  calls; a table of depth 1 whose second bucket is full, and the same table after the
  insert of key 5, which doubles the directory and splits that bucket.
\<close>

definition full_table :: "int \<Rightarrow> (int, int) ExtendibleHashTable" where
  "full_table k2 =
     \<lparr>global_depth = 0, bucket_size = 2, num_buckets = 1, dir = [0],
      heap = [\<lparr>b_size = 2, b_depth = 0, b_list = [(0, 10), (k2, 20)]\<rparr>]\<rparr>"

definition six_calls :: "(int, int) table_op list" where
  "six_calls = [H_Insert 1 10, H_Insert 2 20, H_Insert 3 30, H_Insert 1 11, H_Remove 2, H_Find 3]"

definition after_six_calls :: "(int, int) ExtendibleHashTable" where
  "after_six_calls =
     \<lparr>global_depth = 1, bucket_size = 2, num_buckets = 2, dir = [0, 1],
      heap = [\<lparr>b_size = 2, b_depth = 1, b_list = []\<rparr>,
              \<lparr>b_size = 2, b_depth = 1, b_list = [(1, 11), (3, 30)]\<rparr>]\<rparr>"

definition odd_full :: "(int, int) ExtendibleHashTable" where
  "odd_full =
     \<lparr>global_depth = 1, bucket_size = 2, num_buckets = 2, dir = [0, 1],
      heap = [\<lparr>b_size = 2, b_depth = 1, b_list = [(2, 20)]\<rparr>,
              \<lparr>b_size = 2, b_depth = 1, b_list = [(1, 10), (3, 30)]\<rparr>]\<rparr>"

definition odd_split :: "(int, int) ExtendibleHashTable" where
  "odd_split =
     \<lparr>global_depth = 2, bucket_size = 2, num_buckets = 3, dir = [0, 1, 0, 2],
      heap = [\<lparr>b_size = 2, b_depth = 1, b_list = [(2, 20)]\<rparr>,
              \<lparr>b_size = 2, b_depth = 2, b_list = [(1, 10), (5, 50)]\<rparr>,
              \<lparr>b_size = 2, b_depth = 2, b_list = [(3, 30)]\<rparr>]\<rparr>"

text \<open>
  The states that the insert of the key \<open>INT_MIN + 1\<close> goes through in a table with
  buckets of one entry that holds key 1: the directory has been doubled \<open>d\<close> times, the
  bucket of key 1 has been split \<open>d\<close> times and is the bucket of slot 1, and the bucket of
  slot 0 is empty.
\<close>

definition split_chain :: "nat \<Rightarrow> (int, int) ExtendibleHashTable \<Rightarrow> bool" where
  "split_chain d t \<longleftrightarrow>
     global_depth t = d \<and> bucket_size t = 1 \<and> 2 \<le> length (dir t) \<and>
     dir t ! 0 = 0 \<and> dir t ! 1 = 1 \<and> 2 \<le> length (heap t) \<and>
     heap t ! 0 = \<lparr>b_size = 1, b_depth = 1, b_list = []\<rparr> \<and>
     heap t ! 1 = \<lparr>b_size = 1, b_depth = d, b_list = [(1, 10)]\<rparr>"

section \<open>Properties of the replacer\<close>

subsection \<open>The size counts the evictable frames\<close>

lemma find_index_of_Some:
  "find_index_of fid fs = Some i \<Longrightarrow> i < length fs \<and> frame_id (fs ! i) = fid"
  by (induction fs arbitrary: i) (auto split: if_splits)

lemma filter_erase_evictable:
  "i < length fs \<Longrightarrow> evictable (fs ! i) \<Longrightarrow>
   Suc (length (filter evictable (erase i fs))) = length (filter evictable fs)"
proof -
  assume a: "i < length fs" "evictable (fs ! i)"
  have "fs = take i fs @ fs ! i # drop (Suc i) fs"
    using a(1) by (simp add: id_take_nth_drop)
  then have "filter evictable fs = filter evictable (take i fs) @ fs ! i # filter evictable (drop (Suc i) fs)"
    using a(2) by (metis filter.simps(2) filter_append)
  then show ?thesis by (simp add: erase_def)
qed

lemma length_erase: "i < length fs \<Longrightarrow> Suc (length (erase i fs)) = length fs"
  by (auto simp: erase_def)

lemma filter_update_evictable:
  "i < length fs \<Longrightarrow>
   length (filter evictable (fs[i := (fs ! i)\<lparr>evictable := e\<rparr>])) + (if evictable (fs ! i) then 1 else 0) =
   length (filter evictable fs) + (if e then 1 else 0)"
proof (induction fs arbitrary: i)
  case Nil then show ?case by simp
next
  case (Cons f fs)
  show ?case
  proof (cases i)
    case 0 then show ?thesis by simp
  next
    case (Suc j)
    with Cons.prems have "j < length fs" by simp
    from Cons.IH[OF this] Suc show ?thesis by (auto split: if_splits)
  qed
qed

lemma length_filter_update_accesses:
  "length (filter evictable (fs[i := (fs ! i)\<lparr>accesses := a\<rparr>])) = length (filter evictable fs)"
proof (cases "i < length fs")
  case True
  have "map evictable (fs[i := (fs ! i)\<lparr>accesses := a\<rparr>]) = map evictable fs"
    using True by (simp add: list_eq_iff_nth_eq nth_list_update)
  then have "length (filter id (map evictable (fs[i := (fs ! i)\<lparr>accesses := a\<rparr>]))) = length (filter id (map evictable fs))"
    by simp
  then show ?thesis by (simp add: filter_map comp_def)
next
  case False then show ?thesis by (simp add: list_update_beyond not_less)
qed

lemma RemoveInternal_inv:
  "replacer_inv s \<Longrightarrow> RemoveInternal fid s = Inr s' \<Longrightarrow> replacer_inv s'"
proof -
  assume inv: "replacer_inv s" and r: "RemoveInternal fid s = Inr s'"
  show ?thesis
  proof (cases "FindInternal fid s")
    case None
    with r show ?thesis using inv by (simp add: RemoveInternal_def)
  next
    case (Some i)
    then have i: "i < length (frames s)"
      by (simp add: FindInternal_def find_index_of_Some)
    from r Some have ev: "evictable (frames s ! i)"
      and s': "s' = s\<lparr>frames := erase i (frames s), curr_size := curr_size s - 1\<rparr>"
      by (auto simp: RemoveInternal_def split: if_splits)
    have "(of_nat (length (filter evictable (frames s))) :: size_t) =
          of_nat (Suc (length (filter evictable (erase i (frames s)))))"
      using filter_erase_evictable[OF i ev] by simp
    then have "of_nat (length (filter evictable (frames s))) =
          (of_nat (length (filter evictable (erase i (frames s)))) + 1 :: size_t)"
      by simp
    then have "curr_size s - 1 = of_nat (length (filter evictable (erase i (frames s))))"
      using inv by (simp add: replacer_inv_def)
    moreover have "length (erase i (frames s)) \<le> unat (replacer_size s)"
      using length_erase[OF i] inv by (simp add: replacer_inv_def)
    ultimately show ?thesis by (simp add: s' replacer_inv_def)
  qed
qed

lemma SetEvictableInternal_inv:
  "replacer_inv s \<Longrightarrow> SetEvictableInternal fid e s = Inr s' \<Longrightarrow> replacer_inv s'"
proof -
  assume inv: "replacer_inv s" and r: "SetEvictableInternal fid e s = Inr s'"
  from r obtain i where Some: "FindInternal fid s = Some i"
    by (auto simp: SetEvictableInternal_def split: option.splits)
  then have i: "i < length (frames s)"
    by (simp add: FindInternal_def find_index_of_Some)
  let ?fs' = "(frames s)[i := (frames s ! i)\<lparr>evictable := e\<rparr>]"
  have fr: "frames s' = ?fs'"
    using r Some by (auto simp: SetEvictableInternal_def Let_def split: if_splits)
  have rs: "replacer_size s' = replacer_size s"
    using r Some by (auto simp: SetEvictableInternal_def Let_def split: if_splits)
  have cs: "curr_size s' = (if \<not> evictable (frames s ! i) \<and> e then curr_size s + 1
                            else if evictable (frames s ! i) \<and> \<not> e then curr_size s - 1
                            else curr_size s)"
    using r Some by (auto simp: SetEvictableInternal_def Let_def split: if_splits)
  have cnt: "length (filter evictable ?fs') + (if evictable (frames s ! i) then 1 else 0) =
             length (filter evictable (frames s)) + (if e then 1 else 0)"
    by (rule filter_update_evictable[OF i])
  have "curr_size s' = of_nat (length (filter evictable ?fs'))"
  proof (cases "evictable (frames s ! i)"; cases e)
    assume a: "evictable (frames s ! i)" "\<not> e"
    with cnt have "length (filter evictable (frames s)) = Suc (length (filter evictable ?fs'))" by simp
    with a cs inv show ?thesis by (simp add: replacer_inv_def)
  next
    assume a: "\<not> evictable (frames s ! i)" "e"
    with cnt have "Suc (length (filter evictable (frames s))) = length (filter evictable ?fs')" by simp
    then have "(of_nat (length (filter evictable ?fs')) :: size_t) = of_nat (Suc (length (filter evictable (frames s))))"
      by simp
    then have "of_nat (length (filter evictable ?fs')) = (of_nat (length (filter evictable (frames s))) + 1 :: size_t)"
      by simp
    with a cs inv show ?thesis by (simp add: replacer_inv_def)
  next
    assume a: "evictable (frames s ! i)" "e"
    with cnt cs inv show ?thesis by (simp add: replacer_inv_def)
  next
    assume a: "\<not> evictable (frames s ! i)" "\<not> e"
    with cnt cs inv show ?thesis by (simp add: replacer_inv_def)
  qed
  then show ?thesis using inv fr rs by (simp add: replacer_inv_def)
qed

lemma push_access_inv:
  "replacer_inv s \<Longrightarrow> replacer_inv (push_access i s)"
  by (simp add: replacer_inv_def push_access_def length_filter_update_accesses)

lemma RecordAccessInternal_inv:
  "replacer_inv s \<Longrightarrow> RecordAccessInternal fid s = Inr s' \<Longrightarrow> replacer_inv s'"
proof -
  assume inv: "replacer_inv s" and r: "RecordAccessInternal fid s = Inr s'"
  let ?s1 = "s\<lparr>current_timestamp := current_timestamp s + 1\<rparr>"
  have inv1: "replacer_inv ?s1" using inv by (simp add: replacer_inv_def)
  show ?thesis
  proof (cases "FindInternal fid ?s1")
    case (Some i)
    with r have "s' = push_access i ?s1"
      by (simp add: RecordAccessInternal_def Let_def)
    then show ?thesis using push_access_inv[OF inv1] by simp
  next
    case None
    let ?s2 = "?s1\<lparr>frames := frames ?s1 @ [\<lparr>frame_id = fid, accesses = [], evictable = False\<rparr>]\<rparr>"
    from r None have lt: "length (frames s) < unat (replacer_size s)"
      and s': "s' = push_access (length (frames ?s2) - 1) ?s2"
      by (auto simp: RecordAccessInternal_def Let_def split: if_splits)
    have "replacer_inv ?s2" using inv lt by (simp add: replacer_inv_def)
    then show ?thesis unfolding s' by (rule push_access_inv)
  qed
qed

lemma EvictInternal_inv:
  "replacer_inv s \<Longrightarrow> EvictInternal fid0 s = Inr (found, fid, s') \<Longrightarrow> replacer_inv s'"
proof -
  assume inv: "replacer_inv s" and r: "EvictInternal fid0 s = Inr (found, fid, s')"
  let ?s1 = "s\<lparr>current_timestamp := current_timestamp s + 1\<rparr>"
  have inv1: "replacer_inv ?s1" using inv by (simp add: replacer_inv_def)
  obtain d fnd v where sc:
    "evict_scan (current_timestamp ?s1) (lru_k ?s1) (rev (frames ?s1)) (0, False, fid0) = (d, fnd, v)"
    by (metis prod_cases3)
  show ?thesis
  proof (cases fnd)
    case True
    with r sc have "RemoveInternal v ?s1 = Inr s'"
      by (auto simp: EvictInternal_def Let_def split: sum.splits)
    then show ?thesis using inv1 by (rule RemoveInternal_inv[rotated])
  next
    case False
    with r sc have "s' = ?s1" by (auto simp: EvictInternal_def Let_def)
    then show ?thesis using inv1 by simp
  qed
qed

lemma replacer_step_inv:
  "replacer_inv s \<Longrightarrow> replacer_step op s = Inr s' \<Longrightarrow> replacer_inv s'"
proof (cases op)
  case (R_Evict fid0)
  assume "replacer_inv s" "replacer_step op s = Inr s'"
  then show ?thesis using R_Evict
    by (auto split: sum.splits dest: EvictInternal_inv)
qed (auto dest: RecordAccessInternal_inv SetEvictableInternal_inv RemoveInternal_inv)

lemma replacer_run_inv:
  "replacer_inv s \<Longrightarrow> replacer_run ops s = Inr s' \<Longrightarrow> replacer_inv s'"
proof (induction ops arbitrary: s)
  case Nil then show ?case by simp
next
  case (Cons op ops)
  from Cons.prems(2) obtain s1 where 1: "replacer_step op s = Inr s1"
    and 2: "replacer_run ops s1 = Inr s'"
    by (auto split: sum.splits)
  from Cons.IH[OF replacer_step_inv[OF Cons.prems(1) 1] 2] show ?case .
qed

lemma replacer_inv_init: "replacer_inv (LRUKReplacer n k now)"
  by (simp add: replacer_inv_def LRUKReplacer_def)

lemma replacer_inv_Size:
  "replacer_inv s \<Longrightarrow> unat (Size s) = length (filter evictable (frames s))"
proof -
  assume inv: "replacer_inv s"
  have "length (filter evictable (frames s)) \<le> length (frames s)" by simp
  also have "\<dots> \<le> unat (replacer_size s)" using inv by (simp add: replacer_inv_def)
  finally have "unat (of_nat (length (filter evictable (frames s))) :: size_t) =
     length (filter evictable (frames s))" by (rule le_unat_uoi)
  then show ?thesis using inv by (simp add: replacer_inv_def Size_def)
qed

text \<open>
  Claim C4. After every sequence of \<open>RecordAccess\<close>, \<open>SetEvictable\<close>, \<open>Remove\<close> and
  \<open>Evict\<close> calls on a new replacer in which no assertion failed, \<open>Size\<close> is exactly
  the number of tracked frames whose evictable flag is set.
\<close>

theorem size_counts_evictable:
  "replacer_run ops (LRUKReplacer num_frames k now) = Inr s \<Longrightarrow>
   unat (Size s) = length (filter evictable (frames s))"
  by (rule replacer_inv_Size) (rule replacer_run_inv[OF replacer_inv_init])

theorem size_counts_evictable_witness:
  "replacer_run [R_RecordAccess 1, R_RecordAccess 2, R_SetEvictable 1 True, R_SetEvictable 2 True,
                 R_RecordAccess 3, R_Evict 0, R_SetEvictable 3 True] (LRUKReplacer 3 2 0) =
     Inr after_eviction \<and>
   unat (Size after_eviction) = 2 \<and>
   length (filter evictable (frames after_eviction)) = 2"
proof -
  have r: "replacer_run [R_RecordAccess 1, R_RecordAccess 2, R_SetEvictable 1 True,
                         R_SetEvictable 2 True, R_RecordAccess 3, R_Evict 0, R_SetEvictable 3 True]
             (LRUKReplacer 3 2 0) = Inr after_eviction"
    by code_simp
  have c: "length (filter evictable (frames after_eviction)) = 2"
    by (simp add: after_eviction_def)
  from size_counts_evictable[OF r] r c show ?thesis by simp
qed

subsection \<open>The capacity check of \<open>RecordAccessInternal\<close>\<close>

text \<open>
  Claim C8, as stated, fails: the clock is advanced before the capacity is checked.
  With two frames tracked, a capacity of two and the clock at 2, recording an access to
  frame 3 fails with invalid-argument and leaves the clock at 3.
\<close>

theorem record_access_at_capacity_moves_clock:
  "replacer_run [R_RecordAccess 1, R_RecordAccess 2] (LRUKReplacer 2 2 0) = Inr at_capacity \<and>
   FindInternal 3 at_capacity = None \<and>
   length (frames at_capacity) = unat (replacer_size at_capacity) \<and>
   current_timestamp at_capacity = 2 \<and>
   RecordAccessInternal 3 at_capacity =
     Inl (InvalidArgument, at_capacity\<lparr>current_timestamp := 3\<rparr>)"
  by code_simp

text \<open>
  Claim C8, amended. In every state that tracks at least \<open>num_frames\<close> frames,
  \<open>RecordAccess\<close> on an id that is not tracked fails with invalid-argument; the frame
  records, the evictable count, \<open>k\<close> and the capacity are as before, and the clock has
  been advanced by one.
\<close>

theorem record_access_at_capacity:
  "FindInternal fid s = None \<Longrightarrow> unat (replacer_size s) \<le> length (frames s) \<Longrightarrow>
   RecordAccessInternal fid s =
     Inl (InvalidArgument, s\<lparr>current_timestamp := current_timestamp s + 1\<rparr>)"
  by (simp add: RecordAccessInternal_def FindInternal_def Let_def)

theorem record_access_at_capacity_witness:
  "FindInternal 3 at_capacity = None \<and>
   unat (replacer_size at_capacity) \<le> length (frames at_capacity) \<and>
   RecordAccessInternal 3 at_capacity =
     Inl (InvalidArgument, at_capacity\<lparr>current_timestamp := 3\<rparr>)"
proof -
  have f: "FindInternal 3 at_capacity = None"
    by (simp add: FindInternal_def at_capacity_def)
  have c: "unat (replacer_size at_capacity) \<le> length (frames at_capacity)"
    by (simp add: at_capacity_def)
  have t: "current_timestamp at_capacity + 1 = 3"
    by (simp add: at_capacity_def)
  from record_access_at_capacity[OF f c] f c show ?thesis
    unfolding t by simp
qed

subsection \<open>The victim of \<open>EvictInternal\<close>\<close>

lemma evict_scan_saturated:
  "inf_frames k xs = [] \<Longrightarrow> evict_scan now k xs (- 1, True, v) = (- 1, True, v)"
  by (induction xs) (auto simp: inf_frames_def split: if_splits)

lemma evict_scan_inf:
  "inf_frames k xs \<noteq> [] \<Longrightarrow>
   evict_scan now k xs acc = (- 1, True, frame_id (last (inf_frames k xs)))"
proof (induction xs arbitrary: acc)
  case Nil then show ?case by (simp add: inf_frames_def)
next
  case (Cons x xs)
  obtain d fnd v where acc: "acc = (d, fnd, v)" by (metis prod_cases3)
  show ?case
  proof (cases "evictable x \<and> length (accesses x) < unat k")
    case True
    show ?thesis
    proof (cases "inf_frames k xs = []")
      case e: True
      have "inf_frames k (x # xs) = [x]" using True e by (simp add: inf_frames_def)
      then show ?thesis using True acc evict_scan_saturated[OF e] by simp
    next
      case ne: False
      have "last (inf_frames k (x # xs)) = last (inf_frames k xs)"
        using ne by (simp add: inf_frames_def)
      then show ?thesis using True acc Cons.IH[OF ne] by simp
    qed
  next
    case False
    then have eq: "inf_frames k (x # xs) = inf_frames k xs" by (auto simp: inf_frames_def)
    with Cons.prems have ne: "inf_frames k xs \<noteq> []" by simp
    show ?thesis using False acc eq Cons.IH[OF ne] by auto
  qed
qed

lemma find_index_of_member:
  "f \<in> set fs \<Longrightarrow> \<exists>i. find_index_of (frame_id f) fs = Some i"
  by (induction fs) auto

lemma distinct_frame_id_nth:
  "distinct (map frame_id fs) \<Longrightarrow> f \<in> set fs \<Longrightarrow> i < length fs \<Longrightarrow>
   frame_id (fs ! i) = frame_id f \<Longrightarrow> fs ! i = f"
  by (metis distinct_map inj_onD nth_mem)

text \<open>
  Claim C1 fails on the code. With \<open>k = 1\<close>, after the accesses 1, 2, 1, 2 and with both
  frames evictable, frame 1 has backward k-distance 2 and frame 2 has backward
  k-distance 1 at the clock of the eviction, and \<open>EvictInternal\<close> evicts frame 2: the
  comparison reads \<^verbatim>\<open>accesses[size - k_]\<close>, the distance it stores reads
  \<^verbatim>\<open>accesses[k_ - 1]\<close>.
\<close>

theorem evict_not_max_k_distance:
  "replacer_run [R_RecordAccess 1, R_RecordAccess 2, R_RecordAccess 1, R_RecordAccess 2,
                 R_SetEvictable 1 True, R_SetEvictable 2 True] (LRUKReplacer 2 1 0) =
     Inr lru_example \<and>
   map (\<lambda>f. (frame_id f, k_distance (current_timestamp lru_example + 1) (lru_k lru_example) f))
     (filter evictable (frames lru_example)) = [(1, Some 2), (2, Some 1)] \<and>
   EvictInternal 0 lru_example =
     Inr (True, 2,
          \<lparr>current_timestamp = 5, curr_size = 1, replacer_size = 2, lru_k = 1,
           frames = [\<lparr>frame_id = 1, accesses = [1, 3], evictable = True\<rparr>]\<rparr>)"
  by code_simp

text \<open>
  Claim C2, as stated, fails. With \<open>k = 3\<close>, after the accesses 1, 2, 1 frame 1 was last
  accessed at time 3 and frame 2 at time 2; both are evictable and below \<open>k\<close> accesses,
  and \<open>EvictInternal\<close> evicts frame 1, not frame 2.
\<close>

theorem evict_tie_break_counterexample:
  "replacer_run [R_RecordAccess 1, R_RecordAccess 2, R_RecordAccess 1,
                 R_SetEvictable 1 True, R_SetEvictable 2 True] (LRUKReplacer 2 3 0) =
     Inr tie_example \<and>
   map (\<lambda>f. (frame_id f, last (accesses f)))
     (inf_frames (lru_k tie_example) (frames tie_example)) = [(1, 3), (2, 2)] \<and>
   EvictInternal 0 tie_example =
     Inr (True, 1,
          \<lparr>current_timestamp = 4, curr_size = 1, replacer_size = 2, lru_k = 3,
           frames = [\<lparr>frame_id = 2, accesses = [2], evictable = True\<rparr>]\<rparr>)"
  by code_simp

text \<open>
  Claim C2, amended. In every replacer state with distinct frame ids in which some
  evictable frame has fewer than \<open>k\<close> recorded accesses, \<open>EvictInternal\<close> succeeds and
  returns, among the evictable frames with fewer than \<open>k\<close> accesses, the one that comes
  first in the frame vector, that is, the one whose record was created first.
\<close>

theorem evict_prefers_first_tracked:
  assumes d: "distinct (map frame_id (frames s))"
    and ne: "inf_frames (lru_k s) (frames s) \<noteq> []"
  shows "\<exists>s'. EvictInternal fid0 s =
            Inr (True, frame_id (hd (inf_frames (lru_k s) (frames s))), s')"
proof -
  let ?f = "hd (inf_frames (lru_k s) (frames s))"
  let ?s1 = "s\<lparr>current_timestamp := current_timestamp s + 1\<rparr>"
  have rv: "inf_frames (lru_k s) (rev (frames s)) = rev (inf_frames (lru_k s) (frames s))"
    by (simp add: inf_frames_def rev_filter)
  then have ne': "inf_frames (lru_k s) (rev (frames s)) \<noteq> []" using ne by simp
  have sc: "evict_scan (current_timestamp ?s1) (lru_k ?s1) (rev (frames ?s1)) (0, False, fid0)
            = (- 1, True, frame_id ?f)"
    using evict_scan_inf[OF ne'] ne by (simp add: rv last_rev)
  have mem: "?f \<in> set (inf_frames (lru_k s) (frames s))" using ne by simp
  then have fin: "?f \<in> set (frames s)" and ev: "evictable ?f"
    by (auto simp: inf_frames_def)
  from find_index_of_member[OF fin] obtain i where
    i: "find_index_of (frame_id ?f) (frames s) = Some i" by blast
  from find_index_of_Some[OF i] have il: "i < length (frames s)"
    and ifid: "frame_id (frames s ! i) = frame_id ?f" by auto
  have "frames s ! i = ?f" by (rule distinct_frame_id_nth[OF d fin il ifid])
  then have "evictable (frames s ! i)" using ev by simp
  then have "RemoveInternal (frame_id ?f) ?s1 =
     Inr (?s1\<lparr>frames := erase i (frames ?s1), curr_size := curr_size ?s1 - 1\<rparr>)"
    using i by (simp add: RemoveInternal_def FindInternal_def)
  then show ?thesis using sc by (simp add: EvictInternal_def)
qed

theorem evict_prefers_first_tracked_witness:
  "distinct (map frame_id (frames tie_example)) \<and>
   inf_frames (lru_k tie_example) (frames tie_example) \<noteq> [] \<and>
   (\<exists>s'. EvictInternal 0 tie_example = Inr (True, 1, s'))"
proof -
  have d: "distinct (map frame_id (frames tie_example))"
    by (simp add: tie_example_def)
  have ne: "inf_frames (lru_k tie_example) (frames tie_example) \<noteq> []"
    by (simp add: inf_frames_def tie_example_def)
  have h: "frame_id (hd (inf_frames (lru_k tie_example) (frames tie_example))) = 1"
    by (simp add: inf_frames_def tie_example_def)
  from evict_prefers_first_tracked[OF d ne, of 0] d ne show ?thesis
    unfolding h by simp
qed

section \<open>Properties of the extendible hash table\<close>

subsection \<open>Indices and bits\<close>

lemma mask_of_depth_mask: "mask_of_depth d = mask (d mod 32)"
  by (simp add: mask_of_depth_def mask_eq_exp_minus_1)

lemma scast_mask: "n < 32 \<Longrightarrow> (scast (mask n :: 32 word) :: 64 word) = mask n"
  by (rule bit_word_eqI) (auto simp: bit_simps)

lemma unat_mask64: "n < 32 \<Longrightarrow> unat (mask n :: 64 word) = 2 ^ n - 1"
proof -
  assume n: "n < 32"
  have "uint (mask n :: 64 word) = mask n"
    using n by (simp add: uint_mask_eq min_def)
  then have "unat (mask n :: 64 word) = nat (mask n)"
    by (simp add: unat_eq_nat_uint)
  also have "\<dots> = 2 ^ n - 1"
    by (simp add: mask_eq_exp_minus_1 nat_diff_distrib nat_power_eq)
  finally show ?thesis .
qed

lemma unat_mask_of_depth:
  "unat (scast (mask_of_depth d) :: 64 word) = 2 ^ (d mod 32) - 1"
  by (simp add: mask_of_depth_mask scast_mask unat_mask64)

text \<open>The index is the hash on its low \<open>global_depth mod 32\<close> bits.\<close>

lemma IndexOf_mod32: "IndexOf h key t = h key mod 2 ^ (global_depth t mod 32)"
proof -
  have "(2::nat) ^ (global_depth t mod 32) - 1 = mask (global_depth t mod 32)"
    by (simp only: mask_eq_exp_minus_1)
  then have "IndexOf h key t = take_bit (global_depth t mod 32) (h key)"
    by (simp only: IndexOf_def unat_mask_of_depth take_bit_eq_mask)
  then show ?thesis by (simp only: take_bit_eq_mod)
qed

lemma IndexOf_mod: "global_depth t < 32 \<Longrightarrow> IndexOf h key t = h key mod 2 ^ global_depth t"
  by (simp add: IndexOf_mod32)

lemma mod_mod_pow2: "d \<le> g \<Longrightarrow> (x mod 2 ^ g) mod 2 ^ d = (x::nat) mod 2 ^ d"
  by (simp add: mod_mod_cancel le_imp_power_dvd)

lemma mod_Suc_pow2:
  "(x::nat) mod 2 ^ Suc d = y mod 2 ^ Suc d \<longleftrightarrow> x mod 2 ^ d = y mod 2 ^ d \<and> bit x d = bit y d"
proof -
  have e: "z mod 2 ^ Suc d = 2 ^ d * of_bool (bit z d) + z mod 2 ^ d" for z :: nat
    using take_bit_Suc_from_most[of d z] by (simp add: take_bit_eq_mod)
  have lt: "\<And>z::nat. z mod 2 ^ d < 2 ^ d" by simp
  show ?thesis
  proof
    assume a: "x mod 2 ^ Suc d = y mod 2 ^ Suc d"
    then have "(x mod 2 ^ Suc d) mod 2 ^ d = (y mod 2 ^ Suc d) mod 2 ^ d" by simp
    then have m: "x mod 2 ^ d = y mod 2 ^ d" by (simp add: mod_mod_pow2 del: power_Suc)
    with a e[of x] e[of y] have "(2::nat) ^ d * of_bool (bit x d) = 2 ^ d * of_bool (bit y d)" by simp
    then have "bit x d = bit y d" by (cases "bit x d"; cases "bit y d") simp_all
    with m show "x mod 2 ^ d = y mod 2 ^ d \<and> bit x d = bit y d" by simp
  next
    assume "x mod 2 ^ d = y mod 2 ^ d \<and> bit x d = bit y d"
    then show "x mod 2 ^ Suc d = y mod 2 ^ Suc d" using e[of x] e[of y] by simp
  qed
qed

lemma bit_mod_pow2: "d < g \<Longrightarrow> bit ((x::nat) mod 2 ^ g) d = bit x d"
  using bit_take_bit_iff[of g x d] by (simp add: take_bit_eq_mod)

lemma IndexOf_less: "length (dir t) = 2 ^ global_depth t \<Longrightarrow> IndexOf h key t < length (dir t)"
proof -
  assume L: "length (dir t) = 2 ^ global_depth t"
  have "IndexOf h key t < 2 ^ (global_depth t mod 32)"
    by (simp add: IndexOf_mod32)
  also have "(2::nat) ^ (global_depth t mod 32) \<le> 2 ^ global_depth t"
    by (rule power_increasing) simp_all
  finally show ?thesis using L by simp
qed

lemma nth_append_same:
  "i < 2 * length xs \<Longrightarrow> (xs @ xs) ! i = xs ! (i mod length xs)"
  by (cases "i < length xs") (simp_all add: nth_append le_mod_geq not_less)

lemma table_invD:
  "table_inv h t \<Longrightarrow> length (dir t) = 2 ^ global_depth t"
  "table_inv h t \<Longrightarrow> i < length (dir t) \<Longrightarrow> slot_ok h t i"
  by (simp_all add: table_inv_def)

lemma slot_okD:
  assumes "slot_ok h t i"
  shows "dir t ! i < length (heap t)"
    and "b_depth (heap t ! (dir t ! i)) \<le> global_depth t"
    and "b_size (heap t ! (dir t ! i)) = bucket_size t"
    and "distinct (map fst (b_list (heap t ! (dir t ! i))))"
    and "it \<in> set (b_list (heap t ! (dir t ! i))) \<Longrightarrow>
         h (fst it) mod 2 ^ b_depth (heap t ! (dir t ! i)) = i mod 2 ^ b_depth (heap t ! (dir t ! i))"
    and "j < length (dir t) \<Longrightarrow> dir t ! j = dir t ! i \<Longrightarrow>
         j mod 2 ^ b_depth (heap t ! (dir t ! i)) = i mod 2 ^ b_depth (heap t ! (dir t ! i))"
  using assms by (simp_all add: slot_ok_def Let_def)

lemma slot_okI:
  assumes "dir t ! i < length (heap t)"
    and "b_depth (heap t ! (dir t ! i)) \<le> global_depth t"
    and "b_size (heap t ! (dir t ! i)) = bucket_size t"
    and "distinct (map fst (b_list (heap t ! (dir t ! i))))"
    and "\<And>it. it \<in> set (b_list (heap t ! (dir t ! i))) \<Longrightarrow>
         h (fst it) mod 2 ^ b_depth (heap t ! (dir t ! i)) = i mod 2 ^ b_depth (heap t ! (dir t ! i))"
    and "\<And>j. j < length (dir t) \<Longrightarrow> dir t ! j = dir t ! i \<Longrightarrow>
         j mod 2 ^ b_depth (heap t ! (dir t ! i)) = i mod 2 ^ b_depth (heap t ! (dir t ! i))"
  shows "slot_ok h t i"
  using assms by (simp add: slot_ok_def Let_def)

lemma table_inv_init: "table_inv h (ExtendibleHashTable bsize)"
  by (simp add: table_inv_def ExtendibleHashTable_def slot_ok_def)

lemma grow_dir_inv:
  assumes inv: "table_inv h t"
  shows "table_inv h (grow_dir t)"
proof -
  let ?L = "length (dir t)"
  let ?g = "global_depth t"
  have L: "?L = 2 ^ ?g" by (rule table_invD(1)[OF inv])
  have nth: "\<And>i. i < 2 * ?L \<Longrightarrow> dir (grow_dir t) ! i = dir t ! (i mod ?L)"
    by (simp add: grow_dir_def nth_append_same)
  have len: "length (dir (grow_dir t)) = 2 * ?L" by (simp add: grow_dir_def)
  have hp: "heap (grow_dir t) = heap t" "bucket_size (grow_dir t) = bucket_size t"
    "global_depth (grow_dir t) = Suc ?g" by (simp_all add: grow_dir_def)
  have "slot_ok h (grow_dir t) i" if i: "i < 2 * ?L" for i
  proof -
    let ?i = "i mod ?L"
    have il: "?i < ?L" using L by simp
    note ok = slot_okD[OF table_invD(2)[OF inv il]]
    let ?b = "heap t ! (dir t ! ?i)"
    have dle: "b_depth ?b \<le> ?g" by (rule ok(2))
    have im: "?i mod 2 ^ b_depth ?b = i mod 2 ^ b_depth ?b"
      using mod_mod_pow2[OF dle, of i] by (simp add: L)
    show ?thesis
    proof (rule slot_okI)
      show "dir (grow_dir t) ! i < length (heap (grow_dir t))"
        using ok(1) by (simp add: nth[OF i] hp)
      show "b_depth (heap (grow_dir t) ! (dir (grow_dir t) ! i)) \<le> global_depth (grow_dir t)"
        using dle by (simp add: nth[OF i] hp)
      show "b_size (heap (grow_dir t) ! (dir (grow_dir t) ! i)) = bucket_size (grow_dir t)"
        using ok(3) by (simp add: nth[OF i] hp)
      show "distinct (map fst (b_list (heap (grow_dir t) ! (dir (grow_dir t) ! i))))"
        using ok(4) by (simp add: nth[OF i] hp)
    next
      fix it assume "it \<in> set (b_list (heap (grow_dir t) ! (dir (grow_dir t) ! i)))"
      then have "it \<in> set (b_list ?b)" by (simp add: nth[OF i] hp)
      from ok(5)[OF this] im
      show "h (fst it) mod 2 ^ b_depth (heap (grow_dir t) ! (dir (grow_dir t) ! i)) =
            i mod 2 ^ b_depth (heap (grow_dir t) ! (dir (grow_dir t) ! i))"
        by (simp add: nth[OF i] hp)
    next
      fix j assume j: "j < length (dir (grow_dir t))"
        and e: "dir (grow_dir t) ! j = dir (grow_dir t) ! i"
      let ?j = "j mod ?L"
      from j have j2: "j < 2 * ?L" by (simp add: len)
      have jl: "?j < ?L" using L by simp
      from e have "dir t ! ?j = dir t ! ?i" by (simp add: nth[OF i] nth[OF j2])
      from ok(6)[OF jl this] have "?j mod 2 ^ b_depth ?b = ?i mod 2 ^ b_depth ?b" .
      moreover have "?j mod 2 ^ b_depth ?b = j mod 2 ^ b_depth ?b"
        using mod_mod_pow2[OF dle, of j] by (simp add: L)
      ultimately show "j mod 2 ^ b_depth (heap (grow_dir t) ! (dir (grow_dir t) ! i)) =
            i mod 2 ^ b_depth (heap (grow_dir t) ! (dir (grow_dir t) ! i))"
        using im by (simp add: nth[OF i] hp)
    qed
  qed
  then show ?thesis using L by (simp add: table_inv_def len hp)
qed

subsection \<open>Splitting a bucket\<close>

lemma split_at_fields:
  "global_depth (split_at h a t) = global_depth t"
  "bucket_size (split_at h a t) = bucket_size t"
  "num_buckets (split_at h a t) = num_buckets t + 1"
  "length (dir (split_at h a t)) = length (dir t)"
  "length (heap (split_at h a t)) = length (heap t) + 1"
  by (simp_all add: split_at_def RedistributeBucket_def increment_depth_def Let_def)

lemma split_at_dir:
  assumes "a < length (heap t)" "j < length (dir t)"
  shows "dir (split_at h a t) ! j =
         (if dir t ! j = a \<and> bit j (b_depth (heap t ! a)) then length (heap t) else dir t ! j)"
  using assms
  by (simp add: split_at_def RedistributeBucket_def increment_depth_def Let_def
      GetDepth_def IncrementDepth_def)

lemma split_at_heap_old:
  assumes "a < length (heap t)"
  shows "heap (split_at h a t) ! a =
         (heap t ! a)\<lparr>b_depth := b_depth (heap t ! a) + 1,
           b_list := filter (\<lambda>it. \<not> bit (h (fst it)) (b_depth (heap t ! a))) (b_list (heap t ! a))\<rparr>"
  using assms
  by (simp add: split_at_def RedistributeBucket_def increment_depth_def Let_def
      GetDepth_def IncrementDepth_def nth_append)

lemma split_at_heap_new:
  assumes "a < length (heap t)"
  shows "heap (split_at h a t) ! length (heap t) =
         \<lparr>b_size = bucket_size t, b_depth = b_depth (heap t ! a) + 1,
          b_list = filter (\<lambda>it. bit (h (fst it)) (b_depth (heap t ! a))) (b_list (heap t ! a))\<rparr>"
  using assms
  by (simp add: split_at_def RedistributeBucket_def increment_depth_def Let_def
      GetDepth_def IncrementDepth_def nth_append)

lemma split_at_heap_other:
  assumes "x < length (heap t)" "x \<noteq> a"
  shows "heap (split_at h a t) ! x = heap t ! x"
  using assms
  by (simp add: split_at_def RedistributeBucket_def increment_depth_def Let_def nth_append)

text \<open>The bucket a slot refers to after the split, in terms of the state before.\<close>

lemma split_at_slot:
  assumes a: "a < length (heap t)" and j: "j < length (dir t)"
    and v: "dir t ! j < length (heap t)"
  shows "heap (split_at h a t) ! (dir (split_at h a t) ! j) =
         (if dir t ! j = a
          then if bit j (b_depth (heap t ! a))
               then \<lparr>b_size = bucket_size t, b_depth = b_depth (heap t ! a) + 1,
                     b_list = filter (\<lambda>it. bit (h (fst it)) (b_depth (heap t ! a)))
                                (b_list (heap t ! a))\<rparr>
               else (heap t ! a)\<lparr>b_depth := b_depth (heap t ! a) + 1,
                     b_list := filter (\<lambda>it. \<not> bit (h (fst it)) (b_depth (heap t ! a)))
                                (b_list (heap t ! a))\<rparr>
          else heap t ! (dir t ! j))"
  using split_at_heap_old[OF a, of h] split_at_heap_new[OF a, of h]
    split_at_heap_other[OF v, of a h]
  by (simp add: split_at_dir[OF a j])

lemma split_at_inv:
  assumes inv: "table_inv h t" and a: "a < length (heap t)"
    and dlt: "b_depth (heap t ! a) < global_depth t"
  shows "table_inv h (split_at h a t)"
proof -
  let ?t' = "split_at h a t"
  let ?d = "b_depth (heap t ! a)"
  let ?n = "length (heap t)"
  have L: "length (dir t) = 2 ^ global_depth t" by (rule table_invD(1)[OF inv])
  have "slot_ok h ?t' i" if i: "i < length (dir t)" for i
  proof -
    note ok = slot_okD[OF table_invD(2)[OF inv i]]
    note sl = split_at_slot[OF a i ok(1), of h]
    note di = split_at_dir[OF a i, of h]
    show ?thesis
    proof (cases "dir t ! i = a")
      case False
      show ?thesis
      proof (rule slot_okI)
        show "dir ?t' ! i < length (heap ?t')"
          using ok(1) False by (simp add: di split_at_fields)
        show "b_depth (heap ?t' ! (dir ?t' ! i)) \<le> global_depth ?t'"
          using ok(2) False by (simp add: sl split_at_fields)
        show "b_size (heap ?t' ! (dir ?t' ! i)) = bucket_size ?t'"
          using ok(3) False by (simp add: sl split_at_fields)
        show "distinct (map fst (b_list (heap ?t' ! (dir ?t' ! i))))"
          using ok(4) False by (simp add: sl)
      next
        fix it assume "it \<in> set (b_list (heap ?t' ! (dir ?t' ! i)))"
        then have "it \<in> set (b_list (heap t ! (dir t ! i)))" using False by (simp add: sl)
        from ok(5)[OF this] show "h (fst it) mod 2 ^ b_depth (heap ?t' ! (dir ?t' ! i)) =
            i mod 2 ^ b_depth (heap ?t' ! (dir ?t' ! i))"
          using False by (simp add: sl)
      next
        fix j assume j': "j < length (dir ?t')" and e: "dir ?t' ! j = dir ?t' ! i"
        from j' have j: "j < length (dir t)" by (simp add: split_at_fields)
        have "dir t ! j = dir t ! i"
          using e False ok(1) by (auto simp: di split_at_dir[OF a j] split: if_splits)
        from ok(6)[OF j this] show "j mod 2 ^ b_depth (heap ?t' ! (dir ?t' ! i)) =
            i mod 2 ^ b_depth (heap ?t' ! (dir ?t' ! i))"
          using False by (simp add: sl)
      qed
    next
      case True
      have dep: "b_depth (heap ?t' ! (dir ?t' ! i)) = Suc ?d"
        using True by (simp add: sl)
      have lst: "b_list (heap ?t' ! (dir ?t' ! i)) =
          filter (\<lambda>it. bit (h (fst it)) ?d = bit i ?d) (b_list (heap t ! a))"
        using True by (simp add: sl)
      show ?thesis
      proof (rule slot_okI)
        show "dir ?t' ! i < length (heap ?t')"
          using a True by (simp add: di split_at_fields)
        show "b_depth (heap ?t' ! (dir ?t' ! i)) \<le> global_depth ?t'"
          using dlt by (simp add: dep split_at_fields)
        show "b_size (heap ?t' ! (dir ?t' ! i)) = bucket_size ?t'"
          using ok(3) True by (simp add: sl split_at_fields)
        show "distinct (map fst (b_list (heap ?t' ! (dir ?t' ! i))))"
          using ok(4) True by (simp add: lst distinct_map_filter)
      next
        fix it assume "it \<in> set (b_list (heap ?t' ! (dir ?t' ! i)))"
        then have m: "it \<in> set (b_list (heap t ! (dir t ! i)))" and b: "bit (h (fst it)) ?d = bit i ?d"
          using True by (simp_all add: lst)
        from ok(5)[OF m] True have "h (fst it) mod 2 ^ ?d = i mod 2 ^ ?d" by simp
        with b have "h (fst it) mod 2 ^ Suc ?d = i mod 2 ^ Suc ?d"
          by (simp only: mod_Suc_pow2)
        then show "h (fst it) mod 2 ^ b_depth (heap ?t' ! (dir ?t' ! i)) =
            i mod 2 ^ b_depth (heap ?t' ! (dir ?t' ! i))"
          by (simp only: dep)
      next
        fix j assume j': "j < length (dir ?t')" and e: "dir ?t' ! j = dir ?t' ! i"
        from j' have j: "j < length (dir t)" by (simp add: split_at_fields)
        note okj = slot_okD[OF table_invD(2)[OF inv j]]
        have ja: "dir t ! j = a" and jb: "bit j ?d = bit i ?d"
          using e True a okj(1) by (auto simp: di split_at_dir[OF a j] split: if_splits)
        from ok(6)[OF j] ja True have "j mod 2 ^ ?d = i mod 2 ^ ?d" by simp
        with jb have "j mod 2 ^ Suc ?d = i mod 2 ^ Suc ?d"
          by (simp only: mod_Suc_pow2)
        then show "j mod 2 ^ b_depth (heap ?t' ! (dir ?t' ! i)) =
            i mod 2 ^ b_depth (heap ?t' ! (dir ?t' ! i))"
          by (simp only: dep)
      qed
    qed
  qed
  then show ?thesis using L by (simp add: table_inv_def split_at_fields)
qed

lemma split_bucket_eq:
  "split_bucket h a t = split_at h a (expand_directory a t)"
  by (simp add: split_bucket_def split_at_def)

lemma expand_directory_inv:
  "table_inv h t \<Longrightarrow> table_inv h (expand_directory a t)"
  by (simp add: expand_directory_def grow_dir_inv)

lemma expand_directory_heap: "heap (expand_directory a t) = heap t"
  by (simp add: expand_directory_def grow_dir_def)

lemma expand_directory_bucket_size: "bucket_size (expand_directory a t) = bucket_size t"
  by (simp add: expand_directory_def grow_dir_def)

lemma expand_directory_depth:
  assumes inv: "table_inv h t" and i: "i < length (dir t)"
  shows "b_depth (heap t ! (dir t ! i)) < global_depth (expand_directory (dir t ! i) t)"
  using slot_okD(2)[OF table_invD(2)[OF inv i]]
  by (auto simp: expand_directory_def grow_dir_def GetDepth_def)

lemma split_bucket_inv:
  assumes inv: "table_inv h t" and i: "i < length (dir t)"
  shows "table_inv h (split_bucket h (dir t ! i) t)"
proof -
  let ?a = "dir t ! i"
  have a: "?a < length (heap (expand_directory ?a t))"
    using slot_okD(1)[OF table_invD(2)[OF inv i]] by (simp add: expand_directory_heap)
  have d: "b_depth (heap (expand_directory ?a t) ! ?a) < global_depth (expand_directory ?a t)"
    using expand_directory_depth[OF inv i] by (simp add: expand_directory_heap)
  show ?thesis
    unfolding split_bucket_eq
    by (rule split_at_inv[OF expand_directory_inv[OF inv] a d])
qed

lemma split_bucket_fields:
  "global_depth (split_bucket h a t) = global_depth (expand_directory a t)"
  "bucket_size (split_bucket h a t) = bucket_size t"
  "length (dir (split_bucket h a t)) = length (dir (expand_directory a t))"
  by (simp_all add: split_bucket_eq split_at_fields expand_directory_bucket_size)

lemma split_bucket_global_depth:
  "global_depth t \<le> global_depth (split_bucket h a t)"
  by (simp add: split_bucket_eq split_at_fields expand_directory_def grow_dir_def)

lemma split_bucket_dir_length:
  "length (dir t) = 2 ^ global_depth t \<Longrightarrow>
   length (dir (split_bucket h a t)) = 2 ^ global_depth (split_bucket h a t)"
  by (simp add: split_bucket_fields expand_directory_def grow_dir_def)

text \<open>
  As long as the global depth is below 32 the index of a key is its hash on the low
  \<open>global_depth\<close> bits, and a split sends the key to the half of the bucket that its
  entries with the same bit go to.
\<close>

lemma target_grow_dir:
  assumes inv: "table_inv h t" and gd: "global_depth t < 31"
  shows "dir (grow_dir t) ! IndexOf h key (grow_dir t) = dir t ! IndexOf h key t"
proof -
  have L: "length (dir t) = 2 ^ global_depth t" by (rule table_invD(1)[OF inv])
  have i1: "IndexOf h key (grow_dir t) = h key mod 2 ^ Suc (global_depth t)"
    using gd by (simp add: IndexOf_mod grow_dir_def)
  have i0: "IndexOf h key t = h key mod 2 ^ global_depth t"
    using gd by (simp add: IndexOf_mod)
  have "IndexOf h key (grow_dir t) < 2 * length (dir t)"
    by (simp add: i1 L)
  then have "dir (grow_dir t) ! IndexOf h key (grow_dir t) =
             dir t ! (IndexOf h key (grow_dir t) mod length (dir t))"
    by (simp add: grow_dir_def nth_append_same)
  also have "IndexOf h key (grow_dir t) mod length (dir t) = IndexOf h key t"
    using mod_mod_pow2[of "global_depth t" "Suc (global_depth t)" "h key"]
    by (simp add: i1 i0 L)
  finally show ?thesis .
qed

lemma target_expand_directory:
  assumes inv: "table_inv h t" and gd: "global_depth (expand_directory a t) < 32"
  shows "dir (expand_directory a t) ! IndexOf h key (expand_directory a t) = dir t ! IndexOf h key t"
proof (cases "GetDepth (heap t ! a) = global_depth t")
  case True
  with gd have "global_depth t < 31" by (simp add: expand_directory_def grow_dir_def)
  from target_grow_dir[OF inv this] True show ?thesis by (simp add: expand_directory_def)
next
  case False
  then show ?thesis by (simp add: expand_directory_def)
qed

lemma target_split_at:
  assumes inv: "table_inv h t" and a: "a < length (heap t)"
    and dlt: "b_depth (heap t ! a) < global_depth t"
    and gd: "global_depth t < 32"
  shows "target h key (split_at h a t) =
         (if dir t ! IndexOf h key t = a
          then \<lparr>b_size = bucket_size t, b_depth = b_depth (heap t ! a) + 1,
                b_list = filter (\<lambda>it. bit (h (fst it)) (b_depth (heap t ! a)) =
                                      bit (h key) (b_depth (heap t ! a)))
                           (b_list (heap t ! a))\<rparr>
          else target h key t)"
proof -
  let ?i = "IndexOf h key t"
  have L: "length (dir t) = 2 ^ global_depth t" by (rule table_invD(1)[OF inv])
  have i: "?i < length (dir t)" by (rule IndexOf_less[OF L])
  note ok = slot_okD[OF table_invD(2)[OF inv i]]
  have idx: "IndexOf h key (split_at h a t) = ?i"
    by (simp add: IndexOf_mod32 split_at_fields)
  have b: "bit ?i (b_depth (heap t ! a)) = bit (h key) (b_depth (heap t ! a))"
    unfolding IndexOf_mod[OF gd] by (rule bit_mod_pow2[OF dlt])
  show ?thesis
  proof (cases "dir t ! ?i = a")
    case False
    then show ?thesis
      by (simp add: target_def idx split_at_slot[OF a i ok(1)])
  next
    case True
    with ok(3) have sz: "b_size (heap t ! a) = bucket_size t" by simp
    show ?thesis
      using True sz by (simp add: target_def idx split_at_slot[OF a i ok(1)] b)
  qed
qed

lemma target_split_bucket:
  assumes inv: "table_inv h t" and i: "i < length (dir t)"
    and gd: "global_depth (split_bucket h (dir t ! i) t) < 32"
  shows "target h key (split_bucket h (dir t ! i) t) =
         (if dir t ! IndexOf h key t = dir t ! i
          then \<lparr>b_size = bucket_size t, b_depth = b_depth (heap t ! (dir t ! i)) + 1,
                b_list = filter (\<lambda>it. bit (h (fst it)) (b_depth (heap t ! (dir t ! i))) =
                                      bit (h key) (b_depth (heap t ! (dir t ! i))))
                           (b_list (heap t ! (dir t ! i)))\<rparr>
          else target h key t)"
proof -
  let ?a = "dir t ! i"
  let ?e = "expand_directory ?a t"
  have ge: "global_depth ?e < 32" using gd by (simp add: split_bucket_fields)
  have a: "?a < length (heap ?e)"
    using slot_okD(1)[OF table_invD(2)[OF inv i]] by (simp add: expand_directory_heap)
  have d: "b_depth (heap ?e ! ?a) < global_depth ?e"
    using expand_directory_depth[OF inv i] by (simp add: expand_directory_heap)
  have tg: "target h key ?e = target h key t"
    by (simp add: target_def target_expand_directory[OF inv ge] expand_directory_heap)
  show ?thesis
    unfolding split_bucket_eq target_split_at[OF expand_directory_inv[OF inv] a d ge]
    by (simp add: target_expand_directory[OF inv ge] expand_directory_heap
        expand_directory_bucket_size tg)
qed

lemma map_of_filter_key:
  "P key \<Longrightarrow> map_of (filter (\<lambda>it. P (fst it)) xs) key = map_of xs key"
  by (induction xs) auto

lemma Find_target:
  "table_inv h t \<Longrightarrow> Find h key t = Bucket_Find key (target h key t)"
  using IndexOf_less[OF table_invD(1), of h t h key]
  by (simp add: Find_def target_def Let_def)

lemma Find_split_bucket:
  assumes inv: "table_inv h t" and i: "i < length (dir t)"
    and gd: "global_depth (split_bucket h (dir t ! i) t) < 32"
  shows "Find h key (split_bucket h (dir t ! i) t) = Find h key t"
proof -
  have "Bucket_Find key (target h key (split_bucket h (dir t ! i) t)) =
        Bucket_Find key (target h key t)"
    unfolding target_split_bucket[OF inv i gd]
    by (simp add: Bucket_Find_def target_def
        map_of_filter_key[where P="\<lambda>x. bit (h x) d = bit (h key) d" for d])
  then show ?thesis
    by (simp add: Find_target[OF inv] Find_target[OF split_bucket_inv[OF inv i]])
qed

subsection \<open>Insert and Remove\<close>

lemma overwrite_None: "overwrite key value xs = None \<longleftrightarrow> key \<notin> fst ` set xs"
  by (induction xs) auto

lemma overwrite_Some:
  "overwrite key value xs = Some l \<Longrightarrow>
   map fst l = map fst xs \<and> map_of l = (map_of xs)(key \<mapsto> value) \<and>
   filter (\<lambda>it. fst it \<noteq> key) l = filter (\<lambda>it. fst it \<noteq> key) xs"
proof (induction xs arbitrary: l)
  case Nil then show ?case by simp
next
  case (Cons x xs)
  show ?case
  proof (cases "fst x = key")
    case True
    with Cons.prems have "l = (fst x, value) # xs" by simp
    then show ?thesis using True by (cases x) auto
  next
    case False
    with Cons.prems obtain l' where l': "overwrite key value xs = Some l'" and l: "l = x # l'"
      by auto
    from Cons.IH[OF l'] False show ?thesis unfolding l by (cases x) auto
  qed
qed

lemma erase_first_None: "erase_first key xs = None \<longleftrightarrow> key \<notin> fst ` set xs"
  by (induction xs) auto

lemma erase_first_Some:
  "erase_first key xs = Some l \<Longrightarrow>
   set l \<subseteq> set xs \<and>
   (distinct (map fst xs) \<longrightarrow> distinct (map fst l) \<and> map_of l = (map_of xs)(key := None))"
proof (induction xs arbitrary: l)
  case Nil then show ?case by simp
next
  case (Cons x xs)
  show ?case
  proof (cases "fst x = key")
    case True
    with Cons.prems have l: "l = xs" by simp
    have "distinct (map fst (x # xs)) \<Longrightarrow> map_of xs key = None"
      using True by (auto simp: map_of_eq_None_iff)
    then show ?thesis unfolding l using True
      by (cases x) (auto simp: fun_upd_idem)
  next
    case False
    with Cons.prems obtain l' where l': "erase_first key xs = Some l'" and l: "l = x # l'"
      by auto
    from Cons.IH[OF l'] False show ?thesis unfolding l by (cases x) auto
  qed
qed

lemma heap_update_inv:
  assumes inv: "table_inv h t" and i: "i < length (dir t)"
    and dep: "b_depth b = b_depth (heap t ! (dir t ! i))"
    and sz: "b_size b = b_size (heap t ! (dir t ! i))"
    and dist: "distinct (map fst (b_list b))"
    and ent: "\<And>it. it \<in> set (b_list b) \<Longrightarrow>
                h (fst it) mod 2 ^ b_depth b = i mod 2 ^ b_depth b"
  shows "table_inv h (t\<lparr>heap := (heap t)[dir t ! i := b]\<rparr>)"
proof -
  let ?a = "dir t ! i"
  let ?t' = "t\<lparr>heap := (heap t)[?a := b]\<rparr>"
  note oki = slot_okD[OF table_invD(2)[OF inv i]]
  have "slot_ok h ?t' j" if j: "j < length (dir t)" for j
  proof (cases "dir t ! j = ?a")
    case False
    then have "heap ?t' ! (dir ?t' ! j) = heap t ! (dir t ! j)" by simp
    then show ?thesis using table_invD(2)[OF inv j] by (simp add: slot_ok_def Let_def)
  next
    case True
    have hb: "(heap t)[dir t ! i := b] ! (dir t ! j) = b" using True oki(1) by simp
    have ji: "j mod 2 ^ b_depth b = i mod 2 ^ b_depth b"
      using oki(6)[OF j True] dep by simp
    show ?thesis
    proof (rule slot_okI)
      show "dir ?t' ! j < length (heap ?t')" using True oki(1) by simp
      show "b_depth (heap ?t' ! (dir ?t' ! j)) \<le> global_depth ?t'"
        using oki(2) dep by (simp add: hb)
      show "b_size (heap ?t' ! (dir ?t' ! j)) = bucket_size ?t'"
        using oki(3) sz by (simp add: hb)
      show "distinct (map fst (b_list (heap ?t' ! (dir ?t' ! j))))"
        using dist by (simp add: hb)
    next
      fix it assume "it \<in> set (b_list (heap ?t' ! (dir ?t' ! j)))"
      then have "it \<in> set (b_list b)" by (simp add: hb)
      from ent[OF this] ji
      show "h (fst it) mod 2 ^ b_depth (heap ?t' ! (dir ?t' ! j)) =
            j mod 2 ^ b_depth (heap ?t' ! (dir ?t' ! j))"
        by (simp add: hb)
    next
      fix j' assume j': "j' < length (dir ?t')" and e: "dir ?t' ! j' = dir ?t' ! j"
      then have "j' < length (dir t)" "dir t ! j' = ?a" using True by simp_all
      from oki(6)[OF this] ji dep
      show "j' mod 2 ^ b_depth (heap ?t' ! (dir ?t' ! j)) =
            j mod 2 ^ b_depth (heap ?t' ! (dir ?t' ! j))"
        by (simp add: hb)
    qed
  qed
  then show ?thesis using table_invD(1)[OF inv] by (simp add: table_inv_def)
qed

lemma IndexOf_heap_update:
  "IndexOf h key (t\<lparr>heap := hp\<rparr>) = IndexOf h key t"
  by (simp add: IndexOf_def)

lemma target_heap_update:
  assumes inv: "table_inv h t" and i: "i < length (dir t)"
  shows "target h key (t\<lparr>heap := (heap t)[dir t ! i := b]\<rparr>) =
         (if dir t ! IndexOf h key t = dir t ! i then b else target h key t)"
  using slot_okD(1)[OF table_invD(2)[OF inv i]]
  by (simp add: target_def IndexOf_heap_update)

lemma IndexOf_entry:
  assumes inv: "table_inv h t" and gd: "global_depth t < 32"
  shows "h key mod 2 ^ b_depth (target h key t) = IndexOf h key t mod 2 ^ b_depth (target h key t)"
proof -
  have i: "IndexOf h key t < length (dir t)" by (rule IndexOf_less[OF table_invD(1)[OF inv]])
  from slot_okD(2)[OF table_invD(2)[OF inv i]]
  have "b_depth (target h key t) \<le> global_depth t" by (simp add: target_def)
  from mod_mod_pow2[OF this, of "h key"] show ?thesis by (simp add: IndexOf_mod[OF gd])
qed

lemma Bucket_Insert_Some:
  assumes "Bucket_Insert key value b = Some b'"
  shows "b_depth b' = b_depth b" and "b_size b' = b_size b"
    and "fst ` set (b_list b') = insert key (fst ` set (b_list b))"
    and "distinct (map fst (b_list b)) \<Longrightarrow> distinct (map fst (b_list b'))"
    and "map_of (b_list b') = (map_of (b_list b))(key \<mapsto> value)"
proof -
  show "b_depth b' = b_depth b" "b_size b' = b_size b"
    using assms by (auto simp: Bucket_Insert_def split: option.splits if_splits)
  show "fst ` set (b_list b') = insert key (fst ` set (b_list b))"
  proof (cases "overwrite key value (b_list b)")
    case None
    then show ?thesis using assms by (auto simp: Bucket_Insert_def split: if_splits)
  next
    case (Some l)
    then have k: "key \<in> fst ` set (b_list b)" using overwrite_None[of key "value" "b_list b"] by simp
    have "set (map fst l) = set (map fst (b_list b))" using overwrite_Some[OF Some] by simp
    then have "fst ` set l = fst ` set (b_list b)" by simp
    moreover have "b_list b' = l" using assms Some by (auto simp: Bucket_Insert_def)
    ultimately show ?thesis using k by (simp add: insert_absorb)
  qed
  show "distinct (map fst (b_list b'))" if "distinct (map fst (b_list b))"
  proof (cases "overwrite key value (b_list b)")
    case None
    then have "key \<notin> fst ` set (b_list b)" by (simp add: overwrite_None)
    then show ?thesis using assms None that by (auto simp: Bucket_Insert_def split: if_splits)
  next
    case (Some l)
    then show ?thesis using assms that overwrite_Some[OF Some] by (auto simp: Bucket_Insert_def)
  qed
  show "map_of (b_list b') = (map_of (b_list b))(key \<mapsto> value)"
  proof (cases "overwrite key value (b_list b)")
    case None
    then have "key \<notin> fst ` set (b_list b)" by (simp add: overwrite_None)
    then have "map_of (b_list b) key = None" by (simp add: map_of_eq_None_iff)
    then have "map_of (b_list b @ [(key, value)]) = (map_of (b_list b))(key \<mapsto> value)"
      by (auto simp: map_add_def fun_eq_iff split: option.splits)
    then show ?thesis using assms None by (auto simp: Bucket_Insert_def split: if_splits)
  next
    case (Some l)
    then show ?thesis using assms overwrite_Some[OF Some] by (auto simp: Bucket_Insert_def)
  qed
qed

lemma Insert_direct:
  assumes inv: "table_inv h t" and gd: "global_depth t < 32"
    and ins: "Bucket_Insert key value (target h key t) = Some b"
  shows "table_inv h (t\<lparr>heap := (heap t)[dir t ! IndexOf h key t := b]\<rparr>)"
    and "Find h key (t\<lparr>heap := (heap t)[dir t ! IndexOf h key t := b]\<rparr>) = Some value"
    and "k' \<noteq> key \<Longrightarrow>
         Find h k' (t\<lparr>heap := (heap t)[dir t ! IndexOf h key t := b]\<rparr>) = Find h k' t"
proof -
  let ?i = "IndexOf h key t"
  let ?t' = "t\<lparr>heap := (heap t)[dir t ! ?i := b]\<rparr>"
  have i: "?i < length (dir t)" by (rule IndexOf_less[OF table_invD(1)[OF inv]])
  note ok = slot_okD[OF table_invD(2)[OF inv i]]
  note bi = Bucket_Insert_Some[OF ins]
  have tg: "target h key t = heap t ! (dir t ! ?i)" by (simp add: target_def)
  show inv': "table_inv h ?t'"
  proof (rule heap_update_inv[OF inv i])
    show "b_depth b = b_depth (heap t ! (dir t ! ?i))" using bi(1) by (simp add: tg)
    show "b_size b = b_size (heap t ! (dir t ! ?i))" using bi(2) by (simp add: tg)
    show "distinct (map fst (b_list b))" using bi(4) ok(4) by (simp add: tg)
  next
    fix it assume "it \<in> set (b_list b)"
    then have "fst it \<in> insert key (fst ` set (b_list (target h key t)))"
      using bi(3) by (metis imageI)
    then consider "fst it = key" | it' where "it' \<in> set (b_list (heap t ! (dir t ! ?i)))" "fst it' = fst it"
      by (auto simp: tg)
    then show "h (fst it) mod 2 ^ b_depth b = ?i mod 2 ^ b_depth b"
    proof cases
      case 1
      then show ?thesis using IndexOf_entry[OF inv gd, of key] bi(1) by simp
    next
      case 2
      from ok(5)[OF 2(1)] 2(2) bi(1) show ?thesis by (simp add: tg)
    qed
  qed
  show "Find h key ?t' = Some value"
    by (simp add: Find_target[OF inv'] target_heap_update[OF inv i] Bucket_Find_def bi(5))
  show "Find h k' ?t' = Find h k' t" if ne: "k' \<noteq> key"
  proof (cases "dir t ! IndexOf h k' t = dir t ! ?i")
    case True
    then have "target h k' t = target h key t" by (simp add: target_def)
    then show ?thesis using True ne
      by (simp add: Find_target[OF inv'] Find_target[OF inv] target_heap_update[OF inv i]
          Bucket_Find_def bi(5))
  next
    case False
    then show ?thesis
      by (simp add: Find_target[OF inv'] Find_target[OF inv] target_heap_update[OF inv i])
  qed
qed

text \<open>
  Induction over the calls of \<open>Insert\<close> that return: the property holds of a call if it
  holds of the retry after the split.
\<close>

lemma Insert_induct [consumes 1, case_names step]:
  assumes "Insert h key value t = Some r"
    and "\<And>h key value t r.
           Insert h key value t = Some r \<Longrightarrow>
           (let index = IndexOf h key t in
            if index \<ge> length (dir t) then r = OutOfRange
            else
              let a = dir t ! index in
              case Bucket_Insert key value (heap t ! a) of
                Some b \<Rightarrow> r = Returns (t\<lparr>heap := (heap t)[a := b]\<rparr>)
              | None \<Rightarrow> Insert h key value (split_bucket h a t) = Some r \<and>
                        P h key value (split_bucket h a t) r) \<Longrightarrow> P h key value t r"
  shows "P h key value t r"
proof -
  have "Insert h key value t = Some r \<and> P h key value t r"
  proof (rule Insert.raw_induct[where P="\<lambda>h key value t r. Insert h key value t = Some r \<and> P h key value t r",
        OF _ assms(1)])
    fix Ins :: "('a \<Rightarrow> nat) \<Rightarrow> 'a \<Rightarrow> 'b \<Rightarrow> ('a, 'b) ExtendibleHashTable
                \<Rightarrow> ('a, 'b) ExtendibleHashTable outcome option"
      and h key "value" t r
    assume IH: "\<And>key value t b y. Ins key value t b = Some y \<Longrightarrow>
                  Insert key value t b = Some y \<and> P key value t b y"
      and body: "(let index = IndexOf h key t in
              if index \<ge> length (dir t) then Some OutOfRange
              else
                let a = dir t ! index in
                case Bucket_Insert key value (heap t ! a) of
                  None \<Rightarrow> Ins h key value (split_bucket h a t)
                | Some b \<Rightarrow> Some (Returns (t\<lparr>heap := (heap t)[a := b]\<rparr>))) = Some r"
    have cond: "let index = IndexOf h key t in
              if index \<ge> length (dir t) then r = OutOfRange
              else
                let a = dir t ! index in
                case Bucket_Insert key value (heap t ! a) of
                  Some b \<Rightarrow> r = Returns (t\<lparr>heap := (heap t)[a := b]\<rparr>)
                | None \<Rightarrow> Insert h key value (split_bucket h a t) = Some r \<and>
                          P h key value (split_bucket h a t) r"
      using body IH by (auto simp: Let_def split: if_splits option.splits)
    have ret: "Insert h key value t = Some r"
      using cond by (subst Insert.simps) (auto simp: Let_def split: if_splits option.splits)
    from ret assms(2)[OF ret cond] show "Insert h key value t = Some r \<and> P h key value t r" ..
  qed
  then show ?thesis ..
qed

text \<open>
  What every returning call of \<open>Insert\<close> does, at any depth: the directory keeps the
  length \<open>2 ^ global_depth\<close>, the global depth does not shrink, and \<^verbatim>\<open>dir_.at\<close> does not
  throw.
\<close>

lemma Insert_depth_mono_aux:
  "Insert h key value t = Some r \<Longrightarrow>
   \<forall>t'. r = Returns t' \<longrightarrow> global_depth t \<le> global_depth t'"
proof (induct rule: Insert_induct)
  case (step h key "value" t r)
  let ?i = "IndexOf h key t"
  show ?case
  proof (cases "length (dir t) \<le> ?i")
    case True
    with step show ?thesis by (simp add: Let_def)
  next
    case False
    show ?thesis
    proof (cases "Bucket_Insert key value (heap t ! (dir t ! ?i))")
      case None
      with step False have "\<forall>t'. r = Returns t' \<longrightarrow>
          global_depth (split_bucket h (dir t ! ?i) t) \<le> global_depth t'"
        by (simp add: Let_def)
      then show ?thesis
        using split_bucket_global_depth[of t h "dir t ! ?i"] by (auto intro: order_trans)
    next
      case (Some b)
      with step False have "r = Returns (t\<lparr>heap := (heap t)[dir t ! ?i := b]\<rparr>)"
        by (simp add: Let_def)
      then show ?thesis by simp
    qed
  qed
qed

lemma Insert_depth_mono:
  "Insert h key value t = Some (Returns t') \<Longrightarrow> global_depth t \<le> global_depth t'"
  using Insert_depth_mono_aux[of h key "value" t "Returns t'"] by simp

lemma Insert_dir_length_aux:
  "Insert h key value t = Some r \<Longrightarrow>
   length (dir t) = 2 ^ global_depth t \<longrightarrow>
   (\<exists>t'. r = Returns t' \<and> length (dir t') = 2 ^ global_depth t')"
proof (induct rule: Insert_induct)
  case (step h key "value" t r)
  let ?i = "IndexOf h key t"
  show ?case
  proof
    assume L: "length (dir t) = 2 ^ global_depth t"
    have i: "?i < length (dir t)" by (rule IndexOf_less[OF L])
    show "\<exists>t'. r = Returns t' \<and> length (dir t') = 2 ^ global_depth t'"
    proof (cases "Bucket_Insert key value (heap t ! (dir t ! ?i))")
      case None
      with step i have "length (dir (split_bucket h (dir t ! ?i) t)) =
            2 ^ global_depth (split_bucket h (dir t ! ?i) t) \<longrightarrow>
          (\<exists>t'. r = Returns t' \<and> length (dir t') = 2 ^ global_depth t')"
        by (simp add: Let_def)
      then show ?thesis using split_bucket_dir_length[OF L] by blast
    next
      case (Some b)
      with step i have "r = Returns (t\<lparr>heap := (heap t)[dir t ! ?i := b]\<rparr>)"
        by (simp add: Let_def)
      then show ?thesis using L by simp
    qed
  qed
qed

lemma Insert_dir_length:
  assumes "Insert h key value t = Some r" and "length (dir t) = 2 ^ global_depth t"
  shows "\<exists>t'. r = Returns t' \<and> length (dir t') = 2 ^ global_depth t'"
  using Insert_dir_length_aux[OF assms(1)] assms(2) by simp

lemma Remove_fields:
  "global_depth (snd (Remove h key t)) = global_depth t"
  "dir (snd (Remove h key t)) = dir t"
  by (cases "Bucket_Remove key (heap t ! (dir t ! IndexOf h key t))"; simp add: Remove_def Let_def)+

lemma table_step_dir_length:
  assumes "table_step h op t = Some r" and "length (dir t) = 2 ^ global_depth t"
  shows "\<exists>t'. r = Returns t' \<and> length (dir t') = 2 ^ global_depth t'"
proof (cases op)
  case (H_Insert k v)
  with assms(1) have "Insert h k v t = Some r" by simp
  from Insert_dir_length[OF this assms(2)] show ?thesis .
next
  case (H_Remove k)
  with assms show ?thesis by (auto simp: Remove_fields)
next
  case (H_Find k)
  with assms show ?thesis by auto
qed

lemma table_step_depth_mono:
  assumes "table_step h op t = Some (Returns t')"
  shows "global_depth t \<le> global_depth t'"
proof (cases op)
  case (H_Insert k v)
  with assms have "Insert h k v t = Some (Returns t')" by simp
  then show ?thesis by (rule Insert_depth_mono)
next
  case (H_Remove k)
  with assms show ?thesis by (auto simp: Remove_fields)
next
  case (H_Find k)
  with assms show ?thesis by auto
qed

lemma table_run_Cons_Returns:
  assumes "table_run h (op # ops) t = Some (Returns t')"
  obtains t1 where "table_step h op t = Some (Returns t1)" "table_run h ops t1 = Some (Returns t')"
  using assms by (auto split: option.splits outcome.splits)

lemma table_run_depth_mono:
  "table_run h ops t = Some (Returns t') \<Longrightarrow> global_depth t \<le> global_depth t'"
proof (induction ops arbitrary: t)
  case Nil
  then show ?case by auto
next
  case (Cons op ops)
  from Cons.prems obtain t1 where
    1: "table_step h op t = Some (Returns t1)" and 2: "table_run h ops t1 = Some (Returns t')"
    by (rule table_run_Cons_Returns)
  from table_step_depth_mono[OF 1] Cons.IH[OF 2] show ?case by simp
qed

lemma table_run_dir_length:
  assumes "table_run h ops t = Some r" and "length (dir t) = 2 ^ global_depth t"
  shows "\<exists>t'. r = Returns t' \<and> length (dir t') = 2 ^ global_depth t'"
  using assms
proof (induction ops arbitrary: t)
  case Nil
  then show ?case by auto
next
  case (Cons op ops)
  show ?case
  proof (cases "table_step h op t")
    case None
    with Cons.prems show ?thesis by simp
  next
    case (Some r1)
    from table_step_dir_length[OF Some Cons.prems(2)] obtain t1 where
      t1: "r1 = Returns t1" "length (dir t1) = 2 ^ global_depth t1" by blast
    with Cons.prems Some have "table_run h ops t1 = Some r" by simp
    from Cons.IH[OF this t1(2)] show ?thesis .
  qed
qed

lemma dir_length_init:
  "length (dir (ExtendibleHashTable bsize)) = 2 ^ global_depth (ExtendibleHashTable bsize)"
  by (simp add: ExtendibleHashTable_def)

text \<open>
  What a returning call of \<open>Insert\<close> does when it ends with a global depth below 32:
  the invariant is kept, the key is found with the new value and every other key as
  before.
\<close>

lemma Insert_correct_aux:
  "Insert h key value t = Some r \<Longrightarrow>
   \<forall>t'. r = Returns t' \<longrightarrow> global_depth t' < 32 \<longrightarrow> table_inv h t \<longrightarrow>
     table_inv h t' \<and> global_depth t \<le> global_depth t' \<and> Find h key t' = Some value \<and>
     (\<forall>k'. k' \<noteq> key \<longrightarrow> Find h k' t' = Find h k' t)"
proof (induct rule: Insert_induct)
  case (step h key "value" t r)
  show ?case
  proof (intro allI impI)
    fix t'
    assume r: "r = Returns t'" and bound: "global_depth t' < 32" and inv: "table_inv h t"
    let ?i = "IndexOf h key t"
    have i: "?i < length (dir t)" by (rule IndexOf_less[OF table_invD(1)[OF inv]])
    show "table_inv h t' \<and> global_depth t \<le> global_depth t' \<and> Find h key t' = Some value \<and>
          (\<forall>k'. k' \<noteq> key \<longrightarrow> Find h k' t' = Find h k' t)"
    proof (cases "Bucket_Insert key value (target h key t)")
      case (Some b)
      with step i r have t': "t' = t\<lparr>heap := (heap t)[dir t ! ?i := b]\<rparr>"
        by (simp add: Let_def target_def)
      then have gd: "global_depth t < 32" using bound by simp
      show ?thesis using Insert_direct[OF inv gd Some] unfolding t' by simp
    next
      case None
      let ?s = "split_bucket h (dir t ! ?i) t"
      have invs: "table_inv h ?s" by (rule split_bucket_inv[OF inv i])
      from None step i have "\<forall>t'. r = Returns t' \<longrightarrow> global_depth t' < 32 \<longrightarrow> table_inv h ?s \<longrightarrow>
          table_inv h t' \<and> global_depth ?s \<le> global_depth t' \<and> Find h key t' = Some value \<and>
          (\<forall>k'. k' \<noteq> key \<longrightarrow> Find h k' t' = Find h k' ?s)"
        by (simp add: Let_def target_def)
      with r bound invs have t': "table_inv h t'" "global_depth ?s \<le> global_depth t'"
        "Find h key t' = Some value" "\<forall>k'. k' \<noteq> key \<longrightarrow> Find h k' t' = Find h k' ?s"
        by blast+
      have gs: "global_depth ?s < 32" using t'(2) bound by simp
      have "global_depth t \<le> global_depth t'"
        using t'(2) split_bucket_global_depth[of t h "dir t ! ?i"] by simp
      then show ?thesis using t' Find_split_bucket[OF inv i gs] by simp
    qed
  qed
qed

lemma Insert_correct:
  assumes "Insert h key value t = Some (Returns t')" and "table_inv h t"
    and "global_depth t' < 32"
  shows "table_inv h t'" and "Find h key t' = Some value"
    and "k' \<noteq> key \<Longrightarrow> Find h k' t' = Find h k' t"
  using Insert_correct_aux[OF assms(1)] assms(2,3) by blast+

lemma Remove_correct:
  assumes inv: "table_inv h t"
  shows "table_inv h (snd (Remove h key t))"
    and "Find h key (snd (Remove h key t)) = None"
    and "k' \<noteq> key \<Longrightarrow> Find h k' (snd (Remove h key t)) = Find h k' t"
    and "global_depth (snd (Remove h key t)) = global_depth t"
proof -
  let ?i = "IndexOf h key t"
  have i: "?i < length (dir t)" by (rule IndexOf_less[OF table_invD(1)[OF inv]])
  note ok = slot_okD[OF table_invD(2)[OF inv i]]
  let ?b = "heap t ! (dir t ! ?i)"
  let ?b' = "snd (Bucket_Remove key ?b)"
  let ?t' = "t\<lparr>heap := (heap t)[dir t ! ?i := ?b']\<rparr>"
  have R: "snd (Remove h key t) = ?t'"
    using i by (simp add: Remove_def Let_def split: prod.splits)
  have dep: "b_depth ?b' = b_depth ?b" and sz: "b_size ?b' = b_size ?b"
    by (simp_all add: Bucket_Remove_def split: option.splits)
  have sub: "set (b_list ?b') \<subseteq> set (b_list ?b)"
    using erase_first_Some[of key "b_list ?b"]
    by (auto simp: Bucket_Remove_def split: option.splits)
  have dist: "distinct (map fst (b_list ?b'))"
    using erase_first_Some[of key "b_list ?b"] ok(4)
    by (auto simp: Bucket_Remove_def split: option.splits)
  have mp: "map_of (b_list ?b') = (map_of (b_list ?b))(key := None)"
  proof (cases "erase_first key (b_list ?b)")
    case None
    then have "key \<notin> fst ` set (b_list ?b)" by (simp add: erase_first_None)
    then have "map_of (b_list ?b) key = None" by (simp add: map_of_eq_None_iff)
    then show ?thesis using None by (simp add: Bucket_Remove_def fun_upd_idem)
  next
    case (Some l)
    then show ?thesis using erase_first_Some[OF Some] ok(4) by (simp add: Bucket_Remove_def)
  qed
  have inv': "table_inv h ?t'"
  proof (rule heap_update_inv[OF inv i dep sz dist])
    fix it assume "it \<in> set (b_list ?b')"
    then have "it \<in> set (b_list ?b)" using sub by blast
    from ok(5)[OF this] show "h (fst it) mod 2 ^ b_depth ?b' = ?i mod 2 ^ b_depth ?b'"
      by (simp add: dep)
  qed
  show "table_inv h (snd (Remove h key t))" unfolding R by (rule inv')
  show "Find h key (snd (Remove h key t)) = None"
    unfolding R
    by (simp add: Find_target[OF inv'] target_heap_update[OF inv i] Bucket_Find_def mp)
  show "Find h k' (snd (Remove h key t)) = Find h k' t" if ne: "k' \<noteq> key"
    unfolding R
  proof (cases "dir t ! IndexOf h k' t = dir t ! ?i")
    case True
    then have "target h k' t = ?b" by (simp add: target_def)
    then show "Find h k' ?t' = Find h k' t" using True ne
      by (simp add: Find_target[OF inv'] Find_target[OF inv] target_heap_update[OF inv i]
          Bucket_Find_def mp)
  next
    case False
    then show "Find h k' ?t' = Find h k' t"
      by (simp add: Find_target[OF inv'] Find_target[OF inv] target_heap_update[OF inv i])
  qed
  show "global_depth (snd (Remove h key t)) = global_depth t" unfolding R by simp
qed

lemma table_step_correct:
  assumes st: "table_step h op t = Some (Returns t')" and inv: "table_inv h t"
    and bound: "global_depth t' < 32"
  shows "table_inv h t' \<and>
         (\<forall>key. Find h key t' =
            (case last_write key [op] of Some v \<Rightarrow> Some v
             | None \<Rightarrow> if op = H_Remove key then None else Find h key t))"
proof (cases op)
  case (H_Insert k v)
  with st have "Insert h k v t = Some (Returns t')" by simp
  from Insert_correct[OF this inv bound] show ?thesis using H_Insert by auto
next
  case (H_Remove k)
  with st have r: "t' = snd (Remove h k t)" by simp
  show ?thesis using Remove_correct[OF inv, where key=k] unfolding r H_Remove by auto
next
  case (H_Find k)
  with st inv show ?thesis by auto
qed

lemma table_run_snoc:
  "table_run h (ops @ [op]) t =
     (case table_run h ops t of Some (Returns t1) \<Rightarrow> table_step h op t1 | r \<Rightarrow> r)"
proof (induction ops arbitrary: t)
  case Nil
  show ?case by (auto split: option.splits outcome.splits)
next
  case (Cons o1 ops)
  show ?case by (auto simp: Cons.IH split: option.splits outcome.splits)
qed

lemma table_run_inv:
  assumes "table_run h ops t = Some (Returns t')" and "table_inv h t"
    and "global_depth t' < 32"
  shows "table_inv h t'"
  using assms(1,2)
proof (induction ops arbitrary: t)
  case Nil then show ?case by auto
next
  case (Cons op ops)
  from Cons.prems(1) obtain t1 where
    1: "table_step h op t = Some (Returns t1)" and 2: "table_run h ops t1 = Some (Returns t')"
    by (rule table_run_Cons_Returns)
  have "global_depth t1 < 32" using table_run_depth_mono[OF 2] assms(3) by simp
  from table_step_correct[OF 1 Cons.prems(2) this] have "table_inv h t1" by simp
  from Cons.IH[OF 2 this] show ?case .
qed

lemma table_run_reachable_inv:
  "table_run h ops (ExtendibleHashTable bsize) = Some (Returns t) \<Longrightarrow>
   global_depth t < 32 \<Longrightarrow> table_inv h t"
  by (rule table_run_inv[OF _ table_inv_init])

lemma Find_init: "Find h key (ExtendibleHashTable bsize) = None"
  by (simp add: Find_def IndexOf_mod32 ExtendibleHashTable_def Bucket_Find_def Let_def)

text \<open>
  Claim C3, amended. For every sequence of insert, remove and find calls on a new table
  that returns with a global depth of at most 31, and every key, \<open>Find\<close> returns the value
  of the most recent insert of the key that no remove of the key followed, and nothing
  if there is none.
\<close>

theorem find_returns_last_write:
  assumes "table_run h ops (ExtendibleHashTable bsize) = Some (Returns t)"
    and "global_depth t < 32"
  shows "Find h key t = last_write key (rev ops)"
  using assms
proof (induction ops arbitrary: t rule: rev_induct)
  case Nil
  then show ?case by (auto simp: Find_init)
next
  case (snoc op ops)
  from snoc.prems(1) obtain t1 where
    r1: "table_run h ops (ExtendibleHashTable bsize) = Some (Returns t1)"
    and st: "table_step h op t1 = Some (Returns t)"
    by (auto simp: table_run_snoc split: option.splits outcome.splits)
  have b1: "global_depth t1 < 32"
    using table_step_depth_mono[OF st] snoc.prems(2) by simp
  have inv1: "table_inv h t1" by (rule table_run_reachable_inv[OF r1 b1])
  from table_step_correct[OF st inv1 snoc.prems(2)]
  have "Find h key t =
        (case last_write key [op] of Some v \<Rightarrow> Some v
         | None \<Rightarrow> if op = H_Remove key then None else Find h key t1)" by simp
  then show ?case using snoc.IH[OF r1 b1] by (cases op) auto
qed

theorem find_returns_last_write_witness:
  "table_run hash_int six_calls (ExtendibleHashTable 2) = Some (Returns after_six_calls) \<and>
   global_depth after_six_calls < 32 \<and>
   Find hash_int 1 after_six_calls = Some 11 \<and>
   Find hash_int 2 after_six_calls = None \<and>
   Find hash_int 3 after_six_calls = Some 30 \<and>
   Find hash_int 4 after_six_calls = None"
proof -
  have r: "table_run hash_int six_calls (ExtendibleHashTable 2) = Some (Returns after_six_calls)"
    by code_simp
  have b: "global_depth after_six_calls < 32"
    by (simp add: after_six_calls_def)
  have f1: "Find hash_int 1 after_six_calls = Some 11"
    using find_returns_last_write[OF r b, of 1] by (simp add: six_calls_def)
  have f2: "Find hash_int 2 after_six_calls = None"
    using find_returns_last_write[OF r b, of 2] by (simp add: six_calls_def)
  have f3: "Find hash_int 3 after_six_calls = Some 30"
    using find_returns_last_write[OF r b, of 3] by (simp add: six_calls_def)
  have f4: "Find hash_int 4 after_six_calls = None"
    using find_returns_last_write[OF r b, of 4] by (simp add: six_calls_def)
  show ?thesis by (intro conjI r b f1 f2 f3 f4)
qed

text \<open>
  Claim C5. In every state reached from a new table by insert, remove and find calls,
  the directory has \<open>2 ^ global_depth\<close> slots, and no further sequence of calls makes
  the global depth smaller.
\<close>

theorem directory_length_and_depth:
  assumes "table_run h ops (ExtendibleHashTable bsize) = Some (Returns t)"
  shows "length (dir t) = 2 ^ global_depth t \<and>
         (\<forall>ops' t'. table_run h ops' t = Some (Returns t') \<longrightarrow> global_depth t \<le> global_depth t')"
  using table_run_dir_length[OF assms dir_length_init] table_run_depth_mono
  by blast

theorem directory_length_and_depth_witness:
  "table_run hash_int six_calls (ExtendibleHashTable 2) = Some (Returns after_six_calls) \<and>
   length (dir after_six_calls) = 2 ^ global_depth after_six_calls \<and>
   table_run hash_int [H_Remove 1, H_Remove 3, H_Find 1] after_six_calls =
     Some (Returns (after_six_calls\<lparr>heap := [\<lparr>b_size = 2, b_depth = 1, b_list = []\<rparr>,
                                            \<lparr>b_size = 2, b_depth = 1, b_list = []\<rparr>]\<rparr>)) \<and>
   global_depth after_six_calls
     \<le> global_depth (after_six_calls\<lparr>heap := [\<lparr>b_size = 2, b_depth = 1, b_list = []\<rparr>,
                                            \<lparr>b_size = 2, b_depth = 1, b_list = []\<rparr>]\<rparr>)"
proof -
  have r: "table_run hash_int six_calls (ExtendibleHashTable 2) = Some (Returns after_six_calls)"
    by code_simp
  have r': "table_run hash_int [H_Remove 1, H_Remove 3, H_Find 1] after_six_calls =
     Some (Returns (after_six_calls\<lparr>heap := [\<lparr>b_size = 2, b_depth = 1, b_list = []\<rparr>,
                                            \<lparr>b_size = 2, b_depth = 1, b_list = []\<rparr>]\<rparr>))"
    by code_simp
  from directory_length_and_depth[OF r] r r' show ?thesis by blast
qed

text \<open>
  Claim C10. In every state reached from a new table, \<open>IndexOf\<close> of every key is below
  the length of the directory: the guards \<^verbatim>\<open>index >= dir_.size()\<close> of \<open>Find\<close> and \<open>Remove\<close>
  are false, \<^verbatim>\<open>dir_.at\<close> in \<open>Insert\<close> does not throw, and no sequence of calls ends in
  that exception. This holds at every depth: the mask never has more than
  \<open>global_depth\<close> bits.
\<close>

theorem index_within_directory:
  assumes "table_run h ops (ExtendibleHashTable bsize) = Some (Returns t)"
  shows "IndexOf h key t < length (dir t) \<and>
         Insert h key value t \<noteq> Some OutOfRange \<and>
         table_run h (ops @ ops') (ExtendibleHashTable bsize) \<noteq> Some OutOfRange"
proof -
  have L: "length (dir t) = 2 ^ global_depth t"
    using table_run_dir_length[OF assms dir_length_init] by simp
  have 1: "IndexOf h key t < length (dir t)" by (rule IndexOf_less[OF L])
  have 2: "Insert h key value t \<noteq> Some OutOfRange"
    using Insert_dir_length[OF _ L, where r=OutOfRange] by auto
  have 3: "table_run h (ops @ ops') (ExtendibleHashTable bsize) \<noteq> Some OutOfRange"
    using table_run_dir_length[OF _ dir_length_init, where r=OutOfRange] by auto
  from 1 2 3 show ?thesis by simp
qed

theorem index_within_directory_witness:
  "table_run hash_int six_calls (ExtendibleHashTable 2) = Some (Returns after_six_calls) \<and>
   IndexOf hash_int 7 after_six_calls < length (dir after_six_calls) \<and>
   Insert hash_int 7 70 after_six_calls \<noteq> Some OutOfRange \<and>
   table_run hash_int (six_calls @ [H_Insert 7 70]) (ExtendibleHashTable 2) \<noteq> Some OutOfRange"
proof -
  have r: "table_run hash_int six_calls (ExtendibleHashTable 2) = Some (Returns after_six_calls)"
    by code_simp
  from index_within_directory[OF r, of 7 70 "[H_Insert 7 70]"] r show ?thesis by blast
qed

subsection \<open>Inserting a key that is present\<close>

lemma Insert_unfold_Some:
  assumes "IndexOf h key t < length (dir t)"
    and "Bucket_Insert key value (target h key t) = Some b"
  shows "Insert h key value t =
         Some (Returns (t\<lparr>heap := (heap t)[dir t ! IndexOf h key t := b]\<rparr>))"
  using assms by (subst Insert.simps) (simp add: Let_def target_def)

lemma Insert_unfold_None:
  assumes "IndexOf h key t < length (dir t)"
    and "Bucket_Insert key value (target h key t) = None"
  shows "Insert h key value t =
         Insert h key value (split_bucket h (dir t ! IndexOf h key t) t)"
  using assms by (subst Insert.simps) (simp add: Let_def target_def)

lemma Bucket_Insert_None:
  "Bucket_Insert key value b = None \<longleftrightarrow> key \<notin> fst ` set (b_list b) \<and> IsFull b"
  using overwrite_None[of key "value" "b_list b"]
  by (auto simp: Bucket_Insert_def split: option.splits)

text \<open>
  Claim C9. In every state in which \<open>Find\<close> finds the key (and the slot of the key refers
  to an allocated bucket), \<open>Insert\<close> returns after overwriting the value in place, also
  when the bucket is full: the global depth, the number of buckets, the directory and
  the number of bucket objects are as before, every bucket keeps its depth, its keys in
  their order and all its entries with another key, and \<open>Find\<close> of every other key is as
  before.
\<close>

theorem insert_existing_key:
  assumes present: "Find h key t = Some old"
    and valid: "dir t ! IndexOf h key t < length (heap t)"
  shows "\<exists>t'. Insert h key value t = Some (Returns t') \<and>
           global_depth t' = global_depth t \<and> num_buckets t' = num_buckets t \<and>
           bucket_size t' = bucket_size t \<and> dir t' = dir t \<and>
           length (heap t') = length (heap t) \<and>
           (\<forall>a < length (heap t).
              b_depth (heap t' ! a) = b_depth (heap t ! a) \<and>
              b_size (heap t' ! a) = b_size (heap t ! a) \<and>
              map fst (b_list (heap t' ! a)) = map fst (b_list (heap t ! a)) \<and>
              filter (\<lambda>it. fst it \<noteq> key) (b_list (heap t' ! a)) =
              filter (\<lambda>it. fst it \<noteq> key) (b_list (heap t ! a))) \<and>
           Find h key t' = Some value \<and>
           (\<forall>k'. k' \<noteq> key \<longrightarrow> Find h k' t' = Find h k' t)"
proof -
  let ?i = "IndexOf h key t"
  let ?b = "target h key t"
  from present have i: "?i < length (dir t)"
    by (auto simp: Find_def Let_def split: if_splits)
  with present have "map_of (b_list ?b) key = Some old"
    by (simp add: Find_def Let_def Bucket_Find_def target_def)
  then have "key \<in> fst ` set (b_list ?b)"
    by (metis map_of_eq_None_iff option.distinct(1))
  then obtain l where l: "overwrite key value (b_list ?b) = Some l"
    using overwrite_None[of key "value" "b_list ?b"] by auto
  then have bi: "Bucket_Insert key value ?b = Some (?b\<lparr>b_list := l\<rparr>)"
    by (simp add: Bucket_Insert_def)
  let ?t' = "t\<lparr>heap := (heap t)[dir t ! ?i := ?b\<lparr>b_list := l\<rparr>]\<rparr>"
  have ins: "Insert h key value t = Some (Returns ?t')"
    by (rule Insert_unfold_Some[OF i bi])
  have each: "b_depth (heap ?t' ! a) = b_depth (heap t ! a) \<and>
              b_size (heap ?t' ! a) = b_size (heap t ! a) \<and>
              map fst (b_list (heap ?t' ! a)) = map fst (b_list (heap t ! a)) \<and>
              filter (\<lambda>it. fst it \<noteq> key) (b_list (heap ?t' ! a)) =
              filter (\<lambda>it. fst it \<noteq> key) (b_list (heap t ! a))"
    if a: "a < length (heap t)" for a
  proof (cases "a = dir t ! ?i")
    case True
    then show ?thesis using a overwrite_Some[OF l] by (simp add: target_def)
  next
    case False
    then show ?thesis by simp
  qed
  have fk: "Find h key ?t' = Some value"
    using i valid overwrite_Some[OF l]
    by (simp add: Find_def Let_def IndexOf_heap_update Bucket_Find_def target_def)
  have fo: "Find h k' ?t' = Find h k' t" if ne: "k' \<noteq> key" for k'
  proof (cases "dir t ! IndexOf h k' t = dir t ! ?i")
    case True
    then show ?thesis using ne valid overwrite_Some[OF l]
      by (simp add: Find_def Let_def IndexOf_heap_update Bucket_Find_def target_def)
  next
    case False
    then show ?thesis by (simp add: Find_def Let_def IndexOf_heap_update)
  qed
  from ins each fk fo show ?thesis by auto
qed

theorem insert_existing_key_witness:
  "Find hash_int 0 (full_table 2) = Some 10 \<and>
   dir (full_table 2) ! IndexOf hash_int 0 (full_table 2) < length (heap (full_table 2)) \<and>
   IsFull (target hash_int 0 (full_table 2)) \<and>
   (\<exists>t'. Insert hash_int 0 99 (full_table 2) = Some (Returns t') \<and>
         global_depth t' = 0 \<and> num_buckets t' = 1 \<and> dir t' = [0] \<and>
         Find hash_int 0 t' = Some 99 \<and> Find hash_int 2 t' = Some 20)"
proof -
  have p: "Find hash_int 0 (full_table 2) = Some 10"
    by (simp add: Find_def IndexOf_mod32 Bucket_Find_def full_table_def hash_int_def)
  have v: "dir (full_table 2) ! IndexOf hash_int 0 (full_table 2) < length (heap (full_table 2))"
    by (simp add: IndexOf_mod32 full_table_def hash_int_def)
  have f: "IsFull (target hash_int 0 (full_table 2))"
    by (simp add: IsFull_def target_def IndexOf_mod32 full_table_def hash_int_def)
  have o: "Find hash_int 2 (full_table 2) = Some 20"
    by (simp add: Find_def IndexOf_mod32 Bucket_Find_def full_table_def hash_int_def)
  from insert_existing_key[OF p v, of 99] obtain t' where
    "Insert hash_int 0 99 (full_table 2) = Some (Returns t')"
    "global_depth t' = global_depth (full_table 2)"
    "num_buckets t' = num_buckets (full_table 2)"
    "dir t' = dir (full_table 2)"
    "Find hash_int 0 t' = Some 99"
    "\<forall>k'. k' \<noteq> 0 \<longrightarrow> Find hash_int k' t' = Find hash_int k' (full_table 2)"
    by blast
  with o have "Insert hash_int 0 99 (full_table 2) = Some (Returns t') \<and>
         global_depth t' = 0 \<and> num_buckets t' = 1 \<and> dir t' = [0] \<and>
         Find hash_int 0 t' = Some 99 \<and> Find hash_int 2 t' = Some 20"
    by (simp add: full_table_def hash_int_def)
  then show ?thesis using p v f by blast
qed

subsection \<open>Doubling the directory\<close>

text \<open>
  A split leaves alone every slot that does not refer to the bucket that is split, and
  so does the whole call of \<open>Insert\<close>.
\<close>

lemma expand_directory_dir_old:
  "j < length (dir t) \<Longrightarrow> dir (expand_directory a t) ! j = dir t ! j"
  by (simp add: expand_directory_def grow_dir_def nth_append)

lemma expand_directory_dir_length:
  "length (dir t) \<le> length (dir (expand_directory a t))"
  by (simp add: expand_directory_def grow_dir_def)

lemma split_bucket_dir_other:
  assumes a: "a < length (heap t)" and j: "j < length (dir (expand_directory a t))"
    and ne: "dir (expand_directory a t) ! j \<noteq> a"
  shows "dir (split_bucket h a t) ! j = dir (expand_directory a t) ! j"
proof -
  from a have a': "a < length (heap (expand_directory a t))" by (simp add: expand_directory_heap)
  show ?thesis
    unfolding split_bucket_eq using ne by (simp add: split_at_dir[OF a' j])
qed

lemma split_bucket_target_address:
  assumes inv: "table_inv h t"
    and gd: "global_depth (split_bucket h (dir t ! IndexOf h key t) t) < 32"
  shows "dir (split_bucket h (dir t ! IndexOf h key t) t) !
           IndexOf h key (split_bucket h (dir t ! IndexOf h key t) t)
         \<in> {dir t ! IndexOf h key t, length (heap t)}"
proof -
  let ?a = "dir t ! IndexOf h key t"
  let ?e = "expand_directory ?a t"
  have L: "length (dir t) = 2 ^ global_depth t" by (rule table_invD(1)[OF inv])
  have i: "IndexOf h key t < length (dir t)" by (rule IndexOf_less[OF L])
  have ge: "global_depth ?e < 32" using gd by (simp add: split_bucket_fields)
  have a: "?a < length (heap ?e)"
    using slot_okD(1)[OF table_invD(2)[OF inv i]] by (simp add: expand_directory_heap)
  have idx: "IndexOf h key (split_bucket h ?a t) = IndexOf h key ?e"
    by (simp add: IndexOf_mod32 split_bucket_fields)
  have j: "IndexOf h key ?e < length (dir ?e)"
    by (rule IndexOf_less[OF table_invD(1)[OF expand_directory_inv[OF inv]]])
  have "dir (split_bucket h ?a t) ! IndexOf h key ?e \<in> {?a, length (heap t)}"
    unfolding split_bucket_eq
    by (simp add: split_at_dir[OF a j] target_expand_directory[OF inv ge] expand_directory_heap)
  then show ?thesis by (simp only: idx)
qed

lemma Insert_other_slots_aux:
  "Insert h key value t = Some r \<Longrightarrow>
   \<forall>t'. r = Returns t' \<longrightarrow> global_depth t' < 32 \<longrightarrow> table_inv h t \<longrightarrow>
     (\<forall>j < length (dir t). dir t ! j \<noteq> dir t ! IndexOf h key t \<longrightarrow> dir t' ! j = dir t ! j)"
proof (induct rule: Insert_induct)
  case (step h key "value" t r)
  show ?case
  proof (intro allI impI)
    fix t' j
    assume r: "r = Returns t'" and gd: "global_depth t' < 32" and inv: "table_inv h t"
      and j: "j < length (dir t)" and ne: "dir t ! j \<noteq> dir t ! IndexOf h key t"
    let ?i = "IndexOf h key t"
    let ?a = "dir t ! ?i"
    let ?s = "split_bucket h ?a t"
    have L: "length (dir t) = 2 ^ global_depth t" by (rule table_invD(1)[OF inv])
    have i: "?i < length (dir t)" by (rule IndexOf_less[OF L])
    show "dir t' ! j = dir t ! j"
    proof (cases "Bucket_Insert key value (heap t ! ?a)")
      case (Some b)
      with step(2) i r show ?thesis by (simp add: Let_def)
    next
      case None
      with step(2) i have ret: "Insert h key value ?s = Some r"
        and IH: "\<forall>t'. r = Returns t' \<longrightarrow> global_depth t' < 32 \<longrightarrow> table_inv h ?s \<longrightarrow>
          (\<forall>j < length (dir ?s). dir ?s ! j \<noteq> dir ?s ! IndexOf h key ?s \<longrightarrow> dir t' ! j = dir ?s ! j)"
        by (simp_all add: Let_def)
      have invs: "table_inv h ?s" by (rule split_bucket_inv[OF inv i])
      from Insert_depth_mono[OF ret[unfolded r]] gd have gs: "global_depth ?s < 32" by simp
      have a: "?a < length (heap t)" by (rule slot_okD(1)[OF table_invD(2)[OF inv i]])
      have vj: "dir t ! j < length (heap t)" by (rule slot_okD(1)[OF table_invD(2)[OF inv j]])
      have je: "j < length (dir (expand_directory ?a t))"
        using j expand_directory_dir_length[of t ?a] by simp
      have dj: "dir ?s ! j = dir t ! j"
        using split_bucket_dir_other[OF a je, of h] ne by (simp add: expand_directory_dir_old[OF j])
      have js: "j < length (dir ?s)" using je by (simp add: split_bucket_fields)
      have "dir ?s ! j \<noteq> dir ?s ! IndexOf h key ?s"
        using split_bucket_target_address[OF inv gs] ne vj by (auto simp: dj)
      with IH r gd invs js have "dir t' ! j = dir ?s ! j" by blast
      then show ?thesis by (simp add: dj)
    qed
  qed
qed

lemma Insert_other_slots:
  assumes "Insert h key value t = Some (Returns t')" and "global_depth t' < 32"
    and "table_inv h t" and "j < length (dir t)" and "dir t ! j \<noteq> dir t ! IndexOf h key t"
  shows "dir t' ! j = dir t ! j"
  using Insert_other_slots_aux[OF assms(1)] assms(2-5) by blast

lemma Insert_not_full:
  assumes L: "length (dir t) = 2 ^ global_depth t" and nf: "\<not> IsFull (target h key t)"
  shows "\<exists>b. Insert h key value t =
              Some (Returns (t\<lparr>heap := (heap t)[dir t ! IndexOf h key t := b]\<rparr>))"
proof -
  have i: "IndexOf h key t < length (dir t)" by (rule IndexOf_less[OF L])
  from nf obtain b where "Bucket_Insert key value (target h key t) = Some b"
    using Bucket_Insert_None[of key "value" "target h key t"] by (cases "Bucket_Insert key value (target h key t)") auto
  from Insert_unfold_Some[OF i this] show ?thesis by blast
qed

text \<open>
  Claim C6. In a state reached from a new table, let \<open>Insert\<close> of a key that is not in
  its bucket find the bucket full with local depth equal to the global depth. Then the
  call continues from the state in which the directory has been doubled (the global
  depth is one more, the directory is twice as long, and slot \<open>i + old_size\<close> holds what
  slot \<open>i\<close> holds) and the bucket has been split in that directory. When the bucket that
  the key is routed to after this split has room, the call returns with a global depth
  that is one more and a directory twice as long. In every state that the call returns,
  the global depth is greater and the directory at least twice as long; and, when that
  depth is at most 31, every slot \<open>i\<close> of the old directory other than the slot of the
  key, and with it slot \<open>i + old_size\<close>, refers to the bucket that slot \<open>i\<close> referred to
  before the call.
\<close>

theorem directory_doubles_before_split:
  assumes run: "table_run h ops (ExtendibleHashTable bsize) = Some (Returns t)"
    and absent: "key \<notin> fst ` set (b_list (target h key t))"
    and full: "IsFull (target h key t)"
    and depth: "GetDepth (target h key t) = global_depth t"
  shows "let a = dir t ! IndexOf h key t;
             s = RedistributeBucket h a (increment_depth a (grow_dir t))
         in Insert h key value t = Insert h key value s \<and>
            global_depth (grow_dir t) = global_depth t + 1 \<and>
            length (dir (grow_dir t)) = 2 * length (dir t) \<and>
            (\<forall>i < length (dir t).
               dir (grow_dir t) ! i = dir t ! i \<and>
               dir (grow_dir t) ! (i + length (dir t)) = dir t ! i) \<and>
            global_depth s = global_depth t + 1 \<and>
            length (dir s) = 2 * length (dir t) \<and>
            (\<not> IsFull (target h key s) \<longrightarrow>
               (\<exists>t'. Insert h key value t = Some (Returns t') \<and>
                     global_depth t' = global_depth t + 1 \<and>
                     length (dir t') = 2 * length (dir t))) \<and>
            (\<forall>t'. Insert h key value t = Some (Returns t') \<longrightarrow>
               global_depth t < global_depth t' \<and>
               2 * length (dir t) \<le> length (dir t') \<and>
               (global_depth t' < 32 \<longrightarrow>
                  (\<forall>i < length (dir t). i \<noteq> IndexOf h key t \<longrightarrow>
                     dir t' ! i = dir t ! i \<and> dir t' ! (i + length (dir t)) = dir t ! i)))"
proof -
  let ?i = "IndexOf h key t"
  let ?a = "dir t ! ?i"
  let ?s = "RedistributeBucket h ?a (increment_depth ?a (grow_dir t))"
  have L: "length (dir t) = 2 ^ global_depth t"
    using table_run_dir_length[OF run dir_length_init] by simp
  have i: "?i < length (dir t)" by (rule IndexOf_less[OF L])
  have none: "Bucket_Insert key value (target h key t) = None"
    using absent full by (simp add: Bucket_Insert_None)
  have e: "expand_directory ?a t = grow_dir t"
    using depth by (simp add: expand_directory_def target_def)
  have eq: "split_bucket h ?a t = ?s"
    by (simp add: split_bucket_def e)
  have u: "Insert h key value t = Insert h key value ?s"
    using Insert_unfold_None[OF i none] by (simp add: eq)
  have g1: "global_depth (grow_dir t) = global_depth t + 1"
    and g2: "length (dir (grow_dir t)) = 2 * length (dir t)"
    and g3: "\<forall>i < length (dir t).
               dir (grow_dir t) ! i = dir t ! i \<and>
               dir (grow_dir t) ! (i + length (dir t)) = dir t ! i"
    by (simp_all add: grow_dir_def nth_append)
  have gs: "global_depth ?s = global_depth t + 1"
    using split_bucket_fields(1)[of h ?a t] by (simp add: eq e g1)
  have ls: "length (dir ?s) = 2 * length (dir t)"
    using split_bucket_fields(3)[of h ?a t] by (simp add: eq e g2)
  have Ls: "length (dir ?s) = 2 ^ global_depth ?s"
    by (simp add: gs ls L)
  have one: "\<exists>t'. Insert h key value t = Some (Returns t') \<and>
                  global_depth t' = global_depth t + 1 \<and> length (dir t') = 2 * length (dir t)"
    if nf: "\<not> IsFull (target h key ?s)"
  proof -
    from Insert_not_full[OF Ls nf, of "value"] obtain b where
      r: "Insert h key value ?s =
          Some (Returns (?s\<lparr>heap := (heap ?s)[dir ?s ! IndexOf h key ?s := b]\<rparr>))" by blast
    let ?t' = "?s\<lparr>heap := (heap ?s)[dir ?s ! IndexOf h key ?s := b]\<rparr>"
    have "global_depth ?t' = global_depth t + 1" "length (dir ?t') = 2 * length (dir t)"
      by (simp_all add: gs ls)
    with r show ?thesis unfolding u by blast
  qed
  have ret: "global_depth t < global_depth t' \<and>
             2 * length (dir t) \<le> length (dir t') \<and>
             (global_depth t' < 32 \<longrightarrow>
                (\<forall>i < length (dir t). i \<noteq> ?i \<longrightarrow>
                   dir t' ! i = dir t ! i \<and> dir t' ! (i + length (dir t)) = dir t ! i))"
    if r: "Insert h key value t = Some (Returns t')" for t'
  proof -
    from r have rs: "Insert h key value ?s = Some (Returns t')" by (simp only: u)
    have m: "global_depth t < global_depth t'"
      using Insert_depth_mono[OF rs] gs by simp
    have L': "length (dir t') = 2 ^ global_depth t'"
      using Insert_dir_length[OF r L] by simp
    have "(2::nat) ^ (global_depth t + 1) \<le> 2 ^ global_depth t'"
      by (rule power_increasing) (use m in simp_all)
    then have d: "2 * length (dir t) \<le> length (dir t')"
      by (simp add: L L')
    have others: "dir t' ! j = dir t ! j \<and> dir t' ! (j + length (dir t)) = dir t ! j"
      if bound: "global_depth t' < 32" and j: "j < length (dir t)" and ne: "j \<noteq> ?i" for j
    proof -
      from m bound have gt: "global_depth t < 32" by simp
      have inv: "table_inv h t" by (rule table_run_reachable_inv[OF run gt])
      note ok = slot_okD[OF table_invD(2)[OF inv i]]
      have bd: "b_depth (heap t ! ?a) = global_depth t"
        using depth by (simp add: GetDepth_def target_def)
      have nea: "dir t ! j \<noteq> ?a"
      proof
        assume "dir t ! j = ?a"
        from ok(6)[OF j this] have "j mod 2 ^ global_depth t = ?i mod 2 ^ global_depth t"
          by (simp add: bd)
        with j i L ne show False by simp
      qed
      have vj: "dir t ! j < length (heap t)" by (rule slot_okD(1)[OF table_invD(2)[OF inv j]])
      have invs: "table_inv h ?s" using split_bucket_inv[OF inv i] by (simp add: eq)
      from Insert_depth_mono[OF rs] bound have bs: "global_depth ?s < 32" by simp
      have ta: "dir ?s ! IndexOf h key ?s \<in> {?a, length (heap t)}"
        using split_bucket_target_address[OF inv, of key] bs by (simp add: eq)
      have j1: "j < length (dir (expand_directory ?a t))"
        and j2: "j + length (dir t) < length (dir (expand_directory ?a t))"
        using j by (simp_all add: e g2)
      have s1: "dir ?s ! j = dir t ! j"
        using split_bucket_dir_other[OF ok(1) j1, of h] nea g3 j by (simp add: eq e)
      have s2: "dir ?s ! (j + length (dir t)) = dir t ! j"
        using split_bucket_dir_other[OF ok(1) j2, of h] nea g3 j by (simp add: eq e)
      have n1: "dir ?s ! j \<noteq> dir ?s ! IndexOf h key ?s"
        using ta nea vj by (auto simp: s1)
      have n2: "dir ?s ! (j + length (dir t)) \<noteq> dir ?s ! IndexOf h key ?s"
        using ta nea vj by (auto simp: s2)
      have "dir t' ! j = dir ?s ! j"
        by (rule Insert_other_slots[OF rs bound invs _ n1]) (use j in \<open>simp add: ls\<close>)
      moreover have "dir t' ! (j + length (dir t)) = dir ?s ! (j + length (dir t))"
        by (rule Insert_other_slots[OF rs bound invs _ n2]) (use j in \<open>simp add: ls\<close>)
      ultimately show ?thesis by (simp add: s1 s2)
    qed
    from m d others show ?thesis by blast
  qed
  show ?thesis
    unfolding Let_def
    using u g1 g2 g3 gs ls one ret by blast
qed

theorem directory_doubles_before_split_witness:
  "table_run hash_int [H_Insert 1 10, H_Insert 2 20, H_Insert 3 30] (ExtendibleHashTable 2) =
     Some (Returns odd_full) \<and>
   5 \<notin> fst ` set (b_list (target hash_int 5 odd_full)) \<and>
   IsFull (target hash_int 5 odd_full) \<and>
   GetDepth (target hash_int 5 odd_full) = global_depth odd_full \<and>
   Insert hash_int 5 50 odd_full = Some (Returns odd_split) \<and>
   Insert hash_int 5 50 (RedistributeBucket hash_int 1 (increment_depth 1 (grow_dir odd_full))) =
     Some (Returns odd_split) \<and>
   global_depth odd_full = 1 \<and> dir odd_full = [0, 1] \<and>
   global_depth (grow_dir odd_full) = 2 \<and> dir (grow_dir odd_full) = [0, 1, 0, 1] \<and>
   global_depth odd_split = 2 \<and> dir odd_split = [0, 1, 0, 2] \<and>
   global_depth odd_full < global_depth odd_split \<and>
   2 * length (dir odd_full) \<le> length (dir odd_split) \<and>
   dir odd_split ! 0 = dir odd_full ! 0 \<and>
   dir odd_split ! (0 + length (dir odd_full)) = dir odd_full ! 0"
proof -
  have r: "table_run hash_int [H_Insert 1 10, H_Insert 2 20, H_Insert 3 30] (ExtendibleHashTable 2) =
     Some (Returns odd_full)"
    by code_simp
  have idx: "IndexOf hash_int 5 odd_full = 1"
    by (simp add: IndexOf_mod32 odd_full_def hash_int_def)
  have tg: "target hash_int 5 odd_full = \<lparr>b_size = 2, b_depth = 1, b_list = [(1, 10), (3, 30)]\<rparr>"
    by (simp add: target_def idx) (simp add: odd_full_def)
  have a: "5 \<notin> fst ` set (b_list (target hash_int 5 odd_full))"
    by (simp add: tg)
  have f: "IsFull (target hash_int 5 odd_full)"
    by (simp add: tg IsFull_def)
  have d: "GetDepth (target hash_int 5 odd_full) = global_depth odd_full"
    by (simp add: tg GetDepth_def) (simp add: odd_full_def)
  have ret: "Insert hash_int 5 50 odd_full = Some (Returns odd_split)"
    by code_simp
  have a1: "dir odd_full ! 1 = 1" by (simp add: odd_full_def)
  note T = directory_doubles_before_split[OF r a f d, of 50, unfolded Let_def idx a1]
  have c1: "Insert hash_int 5 50 (RedistributeBucket hash_int 1 (increment_depth 1 (grow_dir odd_full))) =
     Some (Returns odd_split)"
    using T[THEN conjunct1] ret by (simp only:)
  have b: "global_depth odd_split < 32" by (simp add: odd_split_def)
  have z: "(0::nat) < length (dir odd_full)" "(0::nat) \<noteq> 1" by (simp_all add: odd_full_def)
  from T ret b z have c2: "global_depth odd_full < global_depth odd_split \<and>
      2 * length (dir odd_full) \<le> length (dir odd_split) \<and>
      dir odd_split ! 0 = dir odd_full ! 0 \<and>
      dir odd_split ! (0 + length (dir odd_full)) = dir odd_full ! 0"
    by blast
  have c3: "global_depth odd_full = 1" "dir odd_full = [0, 1]"
    "global_depth (grow_dir odd_full) = 2" "dir (grow_dir odd_full) = [0, 1, 0, 1]"
    "global_depth odd_split = 2" "dir odd_split = [0, 1, 0, 2]"
    by (simp_all add: odd_full_def odd_split_def grow_dir_def)
  from c2 have c4: "global_depth odd_full < global_depth odd_split"
    "2 * length (dir odd_full) \<le> length (dir odd_split)"
    "dir odd_split ! 0 = dir odd_full ! 0"
    "dir odd_split ! (0 + length (dir odd_full)) = dir odd_full ! 0"
    by blast+
  show ?thesis
    by (intro conjI r a f d ret c1 c3 c4)
qed

subsection \<open>Termination of Insert\<close>

lemma length_filter_filter_le:
  "length (filter P (filter Q xs)) \<le> length (filter P xs)"
  by (induction xs) auto

lemma pinned_IndexOf:
  assumes "pinned h key t"
  shows "IndexOf h key t = 0"
proof -
  have "global_depth t mod 32 \<le> 31" by simp
  from mod_mod_pow2[OF this, of "h key"] assms show ?thesis
    by (simp add: IndexOf_mod32 pinned_def)
qed

lemma pinned_split_bucket:
  assumes p: "pinned h key t"
  shows "pinned h key (split_bucket h (dir t ! 0) t)"
proof -
  let ?a = "dir t ! 0"
  let ?e = "expand_directory ?a t"
  let ?d = "b_depth (heap t ! ?a)"
  from p have a: "?a < length (heap ?e)" by (simp add: pinned_def expand_directory_heap)
  from p have z: "0 < length (dir ?e)" by (auto simp: pinned_def expand_directory_def grow_dir_def)
  from p have e0: "dir ?e ! 0 = ?a"
    by (auto simp: pinned_def expand_directory_def grow_dir_def nth_append)
  have d0: "dir (split_bucket h ?a t) ! 0 = ?a"
    unfolding split_bucket_eq by (simp add: split_at_dir[OF a z] e0)
  from p have keep: "filter (\<lambda>it. \<not> bit (h (fst it)) ?d) (b_list (heap t ! ?a)) = b_list (heap t ! ?a)"
    by (simp add: pinned_def filter_id_conv)
  have hp: "heap (split_bucket h ?a t) ! ?a = (heap t ! ?a)\<lparr>b_depth := ?d + 1\<rparr>"
    unfolding split_bucket_eq using split_at_heap_old[OF a, of h]
    by (simp add: expand_directory_heap keep)
  have len: "?a < length (heap (split_bucket h ?a t))"
    unfolding split_bucket_eq using a by (simp add: split_at_fields)
  from z have ne: "dir (split_bucket h ?a t) \<noteq> []"
    by (simp add: split_bucket_fields(3) flip: length_greater_0_conv)
  from p show ?thesis
    unfolding pinned_def[of h key "split_bucket h ?a t"] d0 hp
    using len ne by (simp add: pinned_def IsFull_def)
qed

lemma Insert_pinned_aux:
  "Insert h key value t = Some r \<Longrightarrow> \<not> pinned h key t"
proof (induct rule: Insert_induct)
  case (step h key "value" t r)
  show ?case
  proof
    assume p: "pinned h key t"
    have i0: "IndexOf h key t = 0" by (rule pinned_IndexOf[OF p])
    from p have n: "Bucket_Insert key value (heap t ! (dir t ! 0)) = None"
      by (simp add: Bucket_Insert_None pinned_def)
    from p have "0 < length (dir t)" by (simp add: pinned_def)
    with step(2) i0 n have "\<not> pinned h key (split_bucket h (dir t ! 0) t)"
      by (simp add: Let_def)
    with pinned_split_bucket[OF p] show False by simp
  qed
qed

lemma Insert_pinned:
  assumes "pinned h key t"
  shows "Insert h key value t = None"
proof (cases "Insert h key value t")
  case None then show ?thesis .
next
  case (Some r)
  from Insert_pinned_aux[OF Some] assms show ?thesis by simp
qed

text \<open>
  Claim C7 as stated does not hold. In the instance for \<^verbatim>\<open>int\<close> keys, a table with
  buckets of one entry that holds key 0 never returns from the insert of the least
  \<^verbatim>\<open>int\<close>: the two hashes agree on the low 31 bits, which are all that the index ever
  looks at, so that every split leaves the full bucket as it is. With \<open>bucket_size\<close> 0
  the first insert already never returns.
\<close>

theorem insert_never_returns:
  "table_run hash_int [H_Insert 0 (10::int), H_Insert INT_MIN 20] (ExtendibleHashTable 1) = None \<and>
   table_run hash_int [H_Insert 0 (10::int)] (ExtendibleHashTable 0) = None"
proof -
  let ?T = "\<lparr>global_depth = 0, bucket_size = 1, num_buckets = 1, dir = [0],
       heap = [\<lparr>b_size = 1, b_depth = 0, b_list = [(0::int, 10::int)]\<rparr>]\<rparr>"
  have r: "Insert hash_int 0 (10::int) (ExtendibleHashTable 1) = Some (Returns ?T)"
    by code_simp
  have "hash_int INT_MIN = 2 ^ 64 - 2 ^ 31"
    by (simp add: hash_int_def INT_MIN_def)
  then have hm: "hash_int INT_MIN mod 2 ^ 31 = 0" by simp
  have h0: "hash_int 0 = 0" by (simp add: hash_int_def)
  have "pinned hash_int INT_MIN ?T"
    unfolding pinned_def using hm h0 by (simp add: IsFull_def INT_MIN_def)
  then have n: "Insert hash_int INT_MIN 20 ?T = None"
    by (rule Insert_pinned)
  have 1: "table_run hash_int [H_Insert 0 (10::int), H_Insert INT_MIN 20] (ExtendibleHashTable 1) = None"
    unfolding table_run.simps table_step.simps r using n by simp
  have "pinned hash_int 0 (ExtendibleHashTable 0 :: (int, int) ExtendibleHashTable)"
    unfolding pinned_def using h0 by (simp add: IsFull_def ExtendibleHashTable_def)
  then have "Insert hash_int 0 (10::int) (ExtendibleHashTable 0) = None"
    by (rule Insert_pinned)
  then have 2: "table_run hash_int [H_Insert 0 (10::int)] (ExtendibleHashTable 0) = None"
    by simp
  from 1 2 show ?thesis by (rule conjI)
qed

text \<open>
  While the global depth is at most 31, a split separates the entries of a bucket by one
  more bit of their hashes, up to bit 30: the call returns when fewer than \<open>bucket_size\<close>
  entries of the bucket agree with the key on the low 31 bits of the hash.
\<close>

lemma Insert_terminates_aux:
  assumes "table_inv h t" and "global_depth t < 32"
    and "length (filter (\<lambda>it. h (fst it) mod 2 ^ 31 = h key mod 2 ^ 31)
           (b_list (target h key t))) < bucket_size t"
    and "n = 31 - b_depth (target h key t)"
  shows "\<exists>t'. Insert h key value t = Some (Returns t') \<and> global_depth t' < 32"
  using assms
proof (induction n arbitrary: t)
  case (0 t)
  note inv = "0.prems"(1) and gd = "0.prems"(2)
  let ?i = "IndexOf h key t"
  let ?b = "target h key t"
  have i: "?i < length (dir t)" by (rule IndexOf_less[OF table_invD(1)[OF inv]])
  note ok = slot_okD[OF table_invD(2)[OF inv i]]
  have tb: "?b = heap t ! (dir t ! ?i)" by (simp add: target_def)
  from "0.prems"(4) have dD: "31 \<le> b_depth ?b" by simp
  have same: "h (fst it) mod 2 ^ 31 = h key mod 2 ^ 31" if m: "it \<in> set (b_list ?b)" for it
  proof -
    have "h (fst it) mod 2 ^ b_depth ?b = ?i mod 2 ^ b_depth ?b"
      using ok(5)[of it] m by (simp add: tb)
    also have "\<dots> = h key mod 2 ^ b_depth ?b" by (rule IndexOf_entry[OF inv gd, symmetric])
    finally have e: "h (fst it) mod 2 ^ b_depth ?b = h key mod 2 ^ b_depth ?b" .
    have "h (fst it) mod 2 ^ 31 = (h (fst it) mod 2 ^ b_depth ?b) mod 2 ^ 31"
      by (rule mod_mod_pow2[OF dD, symmetric])
    also have "\<dots> = (h key mod 2 ^ b_depth ?b) mod 2 ^ 31" by (simp only: e)
    also have "\<dots> = h key mod 2 ^ 31" by (rule mod_mod_pow2[OF dD])
    finally show ?thesis .
  qed
  then have "filter (\<lambda>it. h (fst it) mod 2 ^ 31 = h key mod 2 ^ 31) (b_list ?b) = b_list ?b"
    by (simp add: filter_id_conv)
  with "0.prems"(3) ok(3) have "\<not> IsFull ?b" by (simp add: IsFull_def tb)
  then obtain b where "Bucket_Insert key value ?b = Some b"
    using Bucket_Insert_None[of key "value" ?b] by (cases "Bucket_Insert key value ?b") auto
  from Insert_unfold_Some[OF i this] gd show ?case by simp
next
  case (Suc n t)
  note inv = Suc.prems(1) and gd = Suc.prems(2)
  let ?i = "IndexOf h key t"
  let ?b = "target h key t"
  have i: "?i < length (dir t)" by (rule IndexOf_less[OF table_invD(1)[OF inv]])
  note ok = slot_okD[OF table_invD(2)[OF inv i]]
  have tb: "?b = heap t ! (dir t ! ?i)" by (simp add: target_def)
  show ?case
  proof (cases "Bucket_Insert key value ?b")
    case (Some b)
    from Insert_unfold_Some[OF i Some] gd show ?thesis by simp
  next
    case None
    let ?s = "split_bucket h (dir t ! ?i) t"
    from Suc.prems(4) have d30: "b_depth ?b \<le> 30" by simp
    have gs: "global_depth ?s < 32"
      using gd d30 by (auto simp: split_bucket_fields expand_directory_def grow_dir_def
          GetDepth_def tb)
    have invs: "table_inv h ?s" by (rule split_bucket_inv[OF inv i])
    have tg: "target h key ?s =
        \<lparr>b_size = bucket_size t, b_depth = b_depth ?b + 1,
         b_list = filter (\<lambda>it. bit (h (fst it)) (b_depth ?b) = bit (h key) (b_depth ?b)) (b_list ?b)\<rparr>"
      using target_split_bucket[OF inv i gs, of key] by (simp add: tb)
    have bs: "bucket_size ?s = bucket_size t"
      by (simp add: split_bucket_fields)
    have "length (filter (\<lambda>it. h (fst it) mod 2 ^ 31 = h key mod 2 ^ 31)
            (b_list (target h key ?s))) \<le>
          length (filter (\<lambda>it. h (fst it) mod 2 ^ 31 = h key mod 2 ^ 31) (b_list ?b))"
      unfolding tg
      using length_filter_filter_le[of "\<lambda>it. h (fst it) mod 2 ^ 31 = h key mod 2 ^ 31" _ "b_list ?b"]
      by (simp del: filter_filter)
    with Suc.prems(3) have 3: "length (filter (\<lambda>it. h (fst it) mod 2 ^ 31 = h key mod 2 ^ 31)
          (b_list (target h key ?s))) < bucket_size ?s"
      by (simp add: bs)
    have 4: "n = 31 - b_depth (target h key ?s)" using Suc.prems(4) by (simp add: tg)
    from Suc.IH[OF invs gs 3 4] obtain t' where
      "Insert h key value ?s = Some (Returns t')" "global_depth t' < 32" by blast
    then show ?thesis using Insert_unfold_None[OF i None] by simp
  qed
qed

text \<open>
  Claim C7, amended. In every state reached from a new table with a global depth of at
  most 31, \<open>Insert\<close> returns, after finitely many splits and with a global depth of at
  most 31, when the key is in the bucket it is routed to or fewer than \<open>bucket_size\<close>
  entries of that bucket have a hash that agrees with the hash of the key on the low 31
  bits.
\<close>

theorem insert_terminates:
  assumes run: "table_run h ops (ExtendibleHashTable bsize) = Some (Returns t)"
    and bound: "global_depth t < 32"
    and room: "key \<in> fst ` set (b_list (target h key t)) \<or>
               length (filter (\<lambda>it. h (fst it) mod 2 ^ 31 = h key mod 2 ^ 31)
                 (b_list (target h key t))) < bucket_size t"
  shows "\<exists>t'. Insert h key value t = Some (Returns t') \<and> global_depth t' < 32"
proof -
  have inv: "table_inv h t" by (rule table_run_reachable_inv[OF run bound])
  have i: "IndexOf h key t < length (dir t)" by (rule IndexOf_less[OF table_invD(1)[OF inv]])
  show ?thesis
  proof (cases "key \<in> fst ` set (b_list (target h key t))")
    case True
    then obtain b where "Bucket_Insert key value (target h key t) = Some b"
      using Bucket_Insert_None[of key "value" "target h key t"]
      by (cases "Bucket_Insert key value (target h key t)") auto
    from Insert_unfold_Some[OF i this] bound show ?thesis by simp
  next
    case False
    with room have "length (filter (\<lambda>it. h (fst it) mod 2 ^ 31 = h key mod 2 ^ 31)
                 (b_list (target h key t))) < bucket_size t" by simp
    from Insert_terminates_aux[OF inv bound this refl] show ?thesis .
  qed
qed

theorem insert_terminates_witness:
  "table_run hash_int [H_Insert 0 10, H_Insert 8 20] (ExtendibleHashTable 2) =
     Some (Returns (full_table 8)) \<and>
   global_depth (full_table 8) < 32 \<and>
   length (filter (\<lambda>it. hash_int (fst it) mod 2 ^ 31 = hash_int 16 mod 2 ^ 31)
     (b_list (target hash_int 16 (full_table 8)))) < bucket_size (full_table 8) \<and>
   (\<exists>t'. Insert hash_int 16 30 (full_table 8) = Some (Returns t') \<and> global_depth t' = 4)"
proof -
  have r: "table_run hash_int [H_Insert 0 10, H_Insert 8 20] (ExtendibleHashTable 2) =
     Some (Returns (full_table 8))"
    by code_simp
  have b: "global_depth (full_table 8) < 32" by (simp add: full_table_def)
  have c: "length (filter (\<lambda>it. hash_int (fst it) mod 2 ^ 31 = hash_int 16 mod 2 ^ 31)
             (b_list (target hash_int 16 (full_table 8)))) < bucket_size (full_table 8)"
    by (simp add: target_def IndexOf_mod32 full_table_def hash_int_def)
  have e: "Insert hash_int 16 30 (full_table 8) =
     Some (Returns
       \<lparr>global_depth = 4, bucket_size = 2, num_buckets = 5,
        dir = [0, 1, 2, 1, 3, 1, 2, 1, 4, 1, 2, 1, 3, 1, 2, 1],
        heap = [\<lparr>b_size = 2, b_depth = 4, b_list = [(0, 10), (16, 30)]\<rparr>,
                \<lparr>b_size = 2, b_depth = 1, b_list = []\<rparr>,
                \<lparr>b_size = 2, b_depth = 2, b_list = []\<rparr>,
                \<lparr>b_size = 2, b_depth = 3, b_list = []\<rparr>,
                \<lparr>b_size = 2, b_depth = 4, b_list = [(8, 20)]\<rparr>]\<rparr>)"
    by code_simp
  from insert_terminates[OF r b disjI2, OF c, of 30] obtain t' where
    "Insert hash_int 16 30 (full_table 8) = Some (Returns t')" by blast
  with e have "Insert hash_int 16 30 (full_table 8) = Some (Returns t') \<and> global_depth t' = 4"
    by auto
  then show ?thesis using r b c by blast
qed

subsection \<open>Beyond depth 31\<close>

text \<open>
  From depth 32 the mask of \<open>IndexOf\<close> starts again from 0 bits, and a key is no longer
  looked up in the slot that its bucket was split into.
\<close>

lemma hash_int_1: "hash_int 1 = 1"
  by (simp add: hash_int_def)

lemma hash_int_INT_MIN_1:
  assumes "1 \<le> d" and "d \<le> 31"
  shows "hash_int (INT_MIN + 1) mod 2 ^ d = 1"
proof -
  have "hash_int (INT_MIN + 1) = 2 ^ 64 - 2 ^ 31 + 1"
    by (simp add: hash_int_def INT_MIN_def)
  then have "hash_int (INT_MIN + 1) mod 2 ^ 31 = 1" by simp
  with mod_mod_pow2[OF assms(2), of "hash_int (INT_MIN + 1)"]
  have "hash_int (INT_MIN + 1) mod 2 ^ d = 1 mod 2 ^ d" by simp
  also have "\<dots> = 1" using assms(1) by (cases d) simp_all
  finally show ?thesis .
qed

lemma split_chainD:
  assumes "split_chain d t"
  shows "global_depth t = d" and "bucket_size t = 1"
    and "0 < length (dir t)" and "1 < length (dir t)"
    and "dir t ! 0 = 0" and "dir t ! 1 = 1"
    and "0 < length (heap t)" and "1 < length (heap t)"
    and "heap t ! 0 = \<lparr>b_size = 1, b_depth = 1, b_list = []\<rparr>"
    and "heap t ! 1 = \<lparr>b_size = 1, b_depth = d, b_list = [(1, 10)]\<rparr>"
  using assms by (auto simp: split_chain_def)

lemma split_chain_step:
  assumes c: "split_chain d t" and d: "1 \<le> d"
  shows "split_chain (Suc d) (split_bucket hash_int 1 t)"
proof -
  note D = split_chainD[OF c]
  let ?e = "grow_dir t"
  let ?s = "split_at hash_int 1 ?e"
  from d have b: "\<not> bit (1::nat) d" by (cases d) (simp_all add: bit_Suc)
  have e: "expand_directory 1 t = ?e"
    using D(1,10) by (simp add: expand_directory_def GetDepth_def)
  have s: "split_bucket hash_int 1 t = ?s"
    by (simp only: split_bucket_eq e)
  have a: "1 < length (heap ?e)" and z: "0 < length (heap ?e)"
    and j0: "0 < length (dir ?e)" and j1: "1 < length (dir ?e)"
    using D(3,4,7,8) by (simp_all add: grow_dir_def)
  have e0: "dir ?e ! 0 = 0" and e1: "dir ?e ! 1 = 1"
    using D(3,4,5,6) by (simp_all add: grow_dir_def nth_append)
  have h0: "heap ?e ! 0 = \<lparr>b_size = 1, b_depth = 1, b_list = []\<rparr>"
    and h1: "heap ?e ! 1 = \<lparr>b_size = 1, b_depth = d, b_list = [(1, 10)]\<rparr>"
    using D(9,10) by (simp_all add: grow_dir_def)
  have 1: "global_depth ?s = Suc d" "bucket_size ?s = 1"
    using D(1,2) by (simp_all add: split_at_fields grow_dir_def)
  have 2: "2 \<le> length (dir ?s)" "2 \<le> length (heap ?s)"
    using j1 a by (simp_all add: split_at_fields)
  have 3: "dir ?s ! 0 = 0"
    unfolding split_at_dir[OF a j0] e0 by simp
  have 4: "dir ?s ! 1 = 1"
    unfolding split_at_dir[OF a j1] e1 h1 using b by simp
  have "heap ?s ! 0 = heap ?e ! 0"
    by (rule split_at_heap_other[OF z]) simp
  then have 5: "heap ?s ! 0 = \<lparr>b_size = 1, b_depth = 1, b_list = []\<rparr>"
    unfolding h0 .
  have 6: "heap ?s ! 1 = \<lparr>b_size = 1, b_depth = Suc d, b_list = [(1, 10)]\<rparr>"
    unfolding split_at_heap_old[OF a] h1 using b by (simp add: hash_int_1)
  show ?thesis
    unfolding s split_chain_def using 1 2 3 4 5 6 by simp
qed

lemma Insert_split_chain:
  assumes "split_chain d t" and "1 \<le> d" and "d \<le> 32" and "n = 32 - d"
  shows "\<exists>t'. Insert hash_int (INT_MIN + 1) 20 t = Some (Returns t') \<and>
              global_depth t' = 32 \<and> Find hash_int 1 t' = None \<and>
              Find hash_int (INT_MIN + 1) t' = Some 20"
  using assms
proof (induction n arbitrary: d t)
  case (0 d t)
  then have d: "d = 32" by simp
  note D = split_chainD[OF "0.prems"(1)[unfolded d]]
  have i: "IndexOf hash_int (INT_MIN + 1) t = 0" and i1: "IndexOf hash_int 1 t = 0"
    by (simp_all add: IndexOf_mod32 D(1))
  have l: "IndexOf hash_int (INT_MIN + 1) t < length (dir t)"
    unfolding i by (rule D(3))
  have ne: "INT_MIN + 1 \<noteq> 1" by (simp add: INT_MIN_def)
  have bi: "Bucket_Insert (INT_MIN + 1) 20 (target hash_int (INT_MIN + 1) t) =
            Some \<lparr>b_size = 1, b_depth = 1, b_list = [(INT_MIN + 1, 20)]\<rparr>"
    unfolding target_def i D(5) D(9) by (simp add: Bucket_Insert_def IsFull_def)
  let ?t' = "t\<lparr>heap := (heap t)[0 := \<lparr>b_size = 1, b_depth = 1, b_list = [(INT_MIN + 1, 20)]\<rparr>]\<rparr>"
  have r: "Insert hash_int (INT_MIN + 1) 20 t = Some (Returns ?t')"
    using Insert_unfold_Some[OF l bi] by (simp only: i D(5))
  have g: "global_depth ?t' = 32" by (simp add: D(1))
  have i': "IndexOf hash_int (INT_MIN + 1) ?t' = 0" "IndexOf hash_int 1 ?t' = 0"
    by (simp_all add: IndexOf_mod32 D(1))
  have f1: "Find hash_int 1 ?t' = None"
    unfolding Find_def Let_def i' using D(3,7) ne by (simp add: D(5) Bucket_Find_def)
  have f2: "Find hash_int (INT_MIN + 1) ?t' = Some 20"
    unfolding Find_def Let_def i' using D(3,7) by (simp add: D(5) Bucket_Find_def)
  from r g f1 f2 show ?case by blast
next
  case (Suc n d t)
  note c = Suc.prems(1)
  note D = split_chainD[OF c]
  from Suc.prems have d: "1 \<le> d" "d \<le> 31" by simp_all
  have i: "IndexOf hash_int (INT_MIN + 1) t = 1"
    using d by (simp add: IndexOf_mod32 D(1) hash_int_INT_MIN_1)
  have l: "IndexOf hash_int (INT_MIN + 1) t < length (dir t)"
    unfolding i by (rule D(4))
  have ne: "INT_MIN + 1 \<noteq> 1" by (simp add: INT_MIN_def)
  have bi: "Bucket_Insert (INT_MIN + 1) 20 (target hash_int (INT_MIN + 1) t) = None"
    unfolding target_def i D(6) D(10) using ne by (simp add: Bucket_Insert_def IsFull_def)
  have u: "Insert hash_int (INT_MIN + 1) 20 t =
           Insert hash_int (INT_MIN + 1) 20 (split_bucket hash_int 1 t)"
    using Insert_unfold_None[OF l bi] by (simp only: i D(6))
  have "\<exists>t'. Insert hash_int (INT_MIN + 1) 20 (split_bucket hash_int 1 t) = Some (Returns t') \<and>
              global_depth t' = 32 \<and> Find hash_int 1 t' = None \<and>
              Find hash_int (INT_MIN + 1) t' = Some 20"
    by (rule Suc.IH[OF split_chain_step[OF c d(1)]]) (use Suc.prems in simp_all)
  then show ?case by (simp only: u)
qed

text \<open>
  Claim C3 as stated does not hold. In the instance for \<^verbatim>\<open>int\<close> keys, in a table with
  buckets of one entry, the insert of key 1 and then of key \<open>INT_MIN + 1\<close>, whose hashes
  agree on the low 31 bits, returns once the global depth is 32. There the index of
  every key is 0, and \<open>Find\<close> of key 1 looks into the bucket of slot 0 and finds nothing,
  although key 1 was inserted and never removed.
\<close>

theorem find_misses_at_depth_32:
  "map_option (map_outcome (Find hash_int 1))
     (table_run hash_int [H_Insert 1 (10::int), H_Insert (INT_MIN + 1) 20] (ExtendibleHashTable 1)) =
     Some (Returns None) \<and>
   map_option (map_outcome global_depth)
     (table_run hash_int [H_Insert 1 (10::int), H_Insert (INT_MIN + 1) 20] (ExtendibleHashTable 1)) =
     Some (Returns 32) \<and>
   last_write 1 (rev [H_Insert 1 (10::int), H_Insert (INT_MIN + 1) 20]) = Some 10"
proof -
  let ?T = "\<lparr>global_depth = 0, bucket_size = 1, num_buckets = 1, dir = [0],
       heap = [\<lparr>b_size = 1, b_depth = 0, b_list = [(1::int, 10::int)]\<rparr>]\<rparr>"
  have r: "Insert hash_int 1 (10::int) (ExtendibleHashTable 1) = Some (Returns ?T)"
    by code_simp
  have ne: "INT_MIN + 1 \<noteq> 1" by (simp add: INT_MIN_def)
  have i: "IndexOf hash_int (INT_MIN + 1) ?T = 0"
    by (simp add: IndexOf_mod32)
  have bi: "Bucket_Insert (INT_MIN + 1) 20 (target hash_int (INT_MIN + 1) ?T) = None"
    unfolding target_def i using ne by (simp add: Bucket_Insert_def IsFull_def)
  have "IndexOf hash_int (INT_MIN + 1) ?T < length (dir ?T)"
    unfolding i by simp
  from Insert_unfold_None[OF this bi]
  have u: "Insert hash_int (INT_MIN + 1) 20 ?T =
           Insert hash_int (INT_MIN + 1) 20 (split_bucket hash_int 0 ?T)"
    unfolding i by simp
  have c: "split_chain 1 (split_bucket hash_int 0 ?T)"
    by (simp add: split_chain_def split_bucket_def expand_directory_def grow_dir_def
        RedistributeBucket_def increment_depth_def IncrementDepth_def GetDepth_def Let_def
        hash_int_1 bit_0)
  from Insert_split_chain[OF c] obtain t where
    t: "Insert hash_int (INT_MIN + 1) 20 (split_bucket hash_int 0 ?T) = Some (Returns t)"
      "global_depth t = 32" "Find hash_int 1 t = None"
    by auto
  have run: "table_run hash_int [H_Insert 1 (10::int), H_Insert (INT_MIN + 1) 20]
               (ExtendibleHashTable 1) = Some (Returns t)"
    unfolding table_run.simps table_step.simps r using t(1) u by simp
  have l: "last_write 1 (rev [H_Insert 1 (10::int), H_Insert (INT_MIN + 1) 20]) = Some 10"
    using ne by simp
  show ?thesis
    unfolding run using t(2,3) l by simp
qed

end
